theory Spec2Isabelle
  imports Main "HOL-Library.AList"
begin

section \<open>Data model of \<open>aiida/orm/oldnode.py\<close>\<close>

text \<open>
  Node objects are Python objects that reference each other (a link triple holds its
  source node), so a node is named by a reference and all node objects live in a table
  of the world state. A reference is the identity of a node object: the class defines no
  equality of its own, so wherever the sources compare nodes, as in the membership test
  on link triples, they compare object identities, and so does equality of references.
  Each node has one object: the objects that a query or a load of the node would create
  anew are not distinguished from it. Exceptions are values: every operation returns
  \<open>(error + result, world)\<close>, the world being the state at the moment the exception
  was raised or the call returned.
\<close>

type_synonym addr = nat
type_synonym ref = nat

datatype error =
    ModificationNotAllowed
  | StoringNotAllowed
  | ValidationError
  | UniquenessError
  | ValueError
  | AttributeError
  | InternalError
  | NotExistent
  | RecursionError
  | AssertionError

datatype link_type = INPUT | CREATE | CALL | RETURN

text \<open>
  Attribute values. \<open>json\<close> is immutable content; \<open>JBase\<close> is a boxed scalar
  (a \<open>BaseType\<close> node wrapping a plain value), \<open>JSeq\<close> an immutable sequence
  (a tuple, or a list seen by value), \<open>JMap\<close> a mapping. A Python value handed to the
  node is either immutable content (a sequence given this way is a tuple, which has no
  \<open>append\<close>) or a reference to a mutable list object on the heap;
  the elements of a list object are kept by value. So the heap records which attributes
  hold one and the same list object, and it does not record a list object that is an
  element of another list: the properties about appending in place are stated for the
  list objects that attributes hold directly and for those the node creates itself.
\<close>

datatype json =
    JNone
  | JBool bool
  | JInt int
  | JStr string
  | JBase json
  | JSeq "json list"
  | JMap "(string \<times> json) list"

datatype pyval = Imm json | ListObj addr

type_synonym heap = "json list list"
type_synonym link_triple = "ref \<times> link_type \<times> string"

record node =
  node_type :: string
  storable :: bool
  cacheable :: bool
  updatable_attributes :: "string list"
  hash_ignored_attributes :: "string list"
  to_be_stored :: bool
  attrs_cache :: "(string \<times> pyval) list"
  incoming_cache :: "link_triple list"
  uuid :: nat
  label :: string
  description :: string
  folder :: "(string \<times> string) list"
  computer :: "nat option"
  db_attrs :: "(string \<times> json) list"
  db_extras :: "(string \<times> json) list"

record world =
  heap :: heap
  objs :: "ref \<Rightarrow> node"
  next_ref :: ref
  db_nodes :: "ref list"
  db_links :: "(ref \<times> link_type \<times> string \<times> ref) list"
  groups :: "(string \<times> ref) list"

text \<open>
  What the module imports from code that is not part of the sources at hand is a
  parameter: the attribute separator, the package version, the hashing function, the
  caching configuration, the subclass hooks \<open>_validate\<close> and \<open>_is_valid_cache\<close>,
  the key of the sealed flag, the ambient autogroup, the failures of the storage backend,
  the link types whose graph is kept acyclic, and the role and degree rules of links.
\<close>

datatype autogroup = NotAnAutogroup | Autogroup "ref \<Rightarrow> bool" "string option"

record env =
  attribute_sep :: char
  version :: string
  make_hash :: "string \<times> (string \<times> json) list \<times> (string \<times> string) list \<times> nat option \<Rightarrow> error + string"
  get_use_cache :: "string \<Rightarrow> bool"
  validate_hook :: "ref \<Rightarrow> world \<Rightarrow> bool"
  is_valid_cache :: "ref \<Rightarrow> world \<Rightarrow> bool"
  sealed_key :: string
  current_autogroup :: "autogroup option"
  backend_failure :: "ref \<Rightarrow> world \<Rightarrow> error option"
  provenance_types :: "link_type list"
  link_roles_ok :: "node \<Rightarrow> node \<Rightarrow> link_type \<Rightarrow> bool"
  link_degree_ok :: "world \<Rightarrow> ref \<Rightarrow> ref \<Rightarrow> link_type \<Rightarrow> string \<Rightarrow> bool"

definition is_stored :: "node \<Rightarrow> bool" where
  "is_stored n = (\<not> to_be_stored n)"

definition has_cached_links :: "node \<Rightarrow> bool" where
  "has_cached_links n = (incoming_cache n \<noteq> [])"

definition put_node :: "ref \<Rightarrow> node \<Rightarrow> world \<Rightarrow> world" where
  "put_node r n w = w\<lparr>objs := (objs w)(r := n)\<rparr>"

section \<open>Python values and the heap\<close>

definition cell :: "heap \<Rightarrow> addr \<Rightarrow> json list" where
  "cell h a = (if a < length h then h ! a else [])"

definition alloc :: "json list \<Rightarrow> heap \<Rightarrow> addr \<times> heap" where
  "alloc xs h = (length h, h @ [xs])"

definition content :: "heap \<Rightarrow> pyval \<Rightarrow> json" where
  "content h v = (case v of Imm j \<Rightarrow> j | ListObj a \<Rightarrow> JSeq (cell h a))"

definition from_db :: "json \<Rightarrow> heap \<Rightarrow> pyval \<times> heap" where
  "from_db j h = (case j of
       JSeq xs \<Rightarrow> (let (a, h') = alloc xs h in (ListObj a, h'))
     | _ \<Rightarrow> (Imm j, h))"

text \<open>
  Modelled from the spec: \<open>validate_attribute_key\<close> (imported from
  \<open>aiida.backends.utils\<close>) fails with a validation error if the key contains the
  reserved separator.
\<close>

definition validate_attribute_key :: "env \<Rightarrow> string \<Rightarrow> error + unit" where
  "validate_attribute_key e key =
     (if attribute_sep e \<in> set key then Inl ValidationError else Inr ())"

text \<open>
  Modelled from the spec: \<open>clean_value\<close> recursively converts a value to its canonical
  JSON-safe representation and resolves a boxed scalar to its plain value. A sequence
  (list or tuple) is rebuilt as a new list object; the argument is not touched.
\<close>

fun clean_json :: "json \<Rightarrow> json" where
  "clean_json (JBase j) = clean_json j"
| "clean_json (JSeq xs) = JSeq (map clean_json xs)"
| "clean_json (JMap kvs) = JMap (map (\<lambda>(k, v). (k, clean_json v)) kvs)"
| "clean_json j = j"

definition clean_value :: "pyval \<Rightarrow> heap \<Rightarrow> pyval \<times> heap" where
  "clean_value v h = from_db (clean_json (content h v)) h"

section \<open>Attributes\<close>

text \<open>
  Modelled from the spec: the backend methods \<open>_get_db_attr\<close>, \<open>_set_db_attr\<close> and
  \<open>_del_db_attr\<close> are abstract in the sources; they read, write and delete the
  attribute row of the node and raise an attribute error for a missing key. A value read
  from the database is a new Python object.
\<close>

definition get_db_attr :: "string \<Rightarrow> ref \<Rightarrow> world \<Rightarrow> (error + pyval) \<times> world" where
  "get_db_attr key self w =
     (case map_of (db_attrs (objs w self)) key of
        None \<Rightarrow> (Inl AttributeError, w)
      | Some j \<Rightarrow> (let (v, h) = from_db j (heap w) in (Inr v, w\<lparr>heap := h\<rparr>)))"

definition set_db_attr :: "string \<Rightarrow> pyval \<Rightarrow> ref \<Rightarrow> world \<Rightarrow> (error + unit) \<times> world" where
  "set_db_attr key v self w =
     (let n = objs w self
      in (Inr (), put_node self (n\<lparr>db_attrs := AList.update key (content (heap w) v) (db_attrs n)\<rparr>) w))"

definition del_db_attr :: "string \<Rightarrow> ref \<Rightarrow> world \<Rightarrow> (error + unit) \<times> world" where
  "del_db_attr key self w =
     (let n = objs w self
      in case map_of (db_attrs n) key of
           None \<Rightarrow> (Inl AttributeError, w)
         | Some _ \<Rightarrow> (Inr (), put_node self (n\<lparr>db_attrs := AList.delete key (db_attrs n)\<rparr>) w))"

definition set_attr ::
  "env \<Rightarrow> string \<Rightarrow> pyval \<Rightarrow> bool \<Rightarrow> bool \<Rightarrow> ref \<Rightarrow> world \<Rightarrow> (error + unit) \<times> world" where
  "set_attr e key val clean stored_check self w =
     (let n = objs w self in
      if stored_check \<and> is_stored n then (Inl ModificationNotAllowed, w)
      else case validate_attribute_key e key of
             Inl err \<Rightarrow> (Inl err, w)
           | Inr _ \<Rightarrow>
               if to_be_stored n then
                 (if clean then
                    (let (v, h) = clean_value val (heap w)
                     in (Inr (), put_node self (n\<lparr>attrs_cache := AList.update key v (attrs_cache n)\<rparr>)
                                   (w\<lparr>heap := h\<rparr>)))
                  else (Inr (), put_node self (n\<lparr>attrs_cache := AList.update key val (attrs_cache n)\<rparr>) w))
               else (let (v, h) = clean_value val (heap w)
                     in set_db_attr key v self (w\<lparr>heap := h\<rparr>)))"

definition del_attr :: "string \<Rightarrow> bool \<Rightarrow> ref \<Rightarrow> world \<Rightarrow> (error + unit) \<times> world" where
  "del_attr key stored_check self w =
     (let n = objs w self in
      if stored_check \<and> is_stored n then (Inl ModificationNotAllowed, w)
      else if to_be_stored n then
        (case map_of (attrs_cache n) key of
           None \<Rightarrow> (Inl AttributeError, w)
         | Some _ \<Rightarrow> (Inr (), put_node self (n\<lparr>attrs_cache := AList.delete key (attrs_cache n)\<rparr>) w))
      else del_db_attr key self w)"

definition get_attr :: "string \<Rightarrow> pyval option \<Rightarrow> ref \<Rightarrow> world \<Rightarrow> (error + pyval) \<times> world" where
  "get_attr key dflt self w =
     (let n = objs w self;
          r = (if to_be_stored n then
                 (case map_of (attrs_cache n) key of
                    None \<Rightarrow> (Inl AttributeError, w)
                  | Some v \<Rightarrow> (Inr v, w))
               else get_db_attr key self w)
      in case r of
           (Inl AttributeError, w') \<Rightarrow>
             (case dflt of None \<Rightarrow> (Inl AttributeError, w') | Some d \<Rightarrow> (Inr d, w'))
         | _ \<Rightarrow> r)"

text \<open>
  \<open>values.append(x)\<close>: only a list object has the method; on anything else the
  attribute lookup itself raises, before the argument is evaluated.
\<close>

definition list_append :: "pyval \<Rightarrow> json \<Rightarrow> heap \<Rightarrow> error + heap" where
  "list_append values x h =
     (case values of
        Imm _ \<Rightarrow> Inl AttributeError
      | ListObj a \<Rightarrow> Inr (h[a := cell h a @ [x]]))"

definition append_to_attr ::
  "env \<Rightarrow> string \<Rightarrow> pyval \<Rightarrow> bool \<Rightarrow> ref \<Rightarrow> world \<Rightarrow> (error + unit) \<times> world" where
  "append_to_attr e key val clean self w =
     (case validate_attribute_key e key of
        Inl err \<Rightarrow> (Inl err, w)
      | Inr _ \<Rightarrow>
          (let (values, w1) =
                 (case get_attr key None self w of
                    (Inl _, w') \<Rightarrow> (let (a, h) = alloc [] (heap w') in (ListObj a, w'\<lparr>heap := h\<rparr>))
                  | (Inr v, w') \<Rightarrow> (v, w'))
           in case values of
                Imm _ \<Rightarrow> (Inl AttributeError, w1)
              | ListObj _ \<Rightarrow>
                  (let (x, h2) = (if clean then clean_value val (heap w1) else (val, heap w1))
                   in case list_append values (content h2 x) h2 of
                        Inl err \<Rightarrow> (Inl err, w1\<lparr>heap := h2\<rparr>)
                      | Inr h3 \<Rightarrow> set_attr e key values False True self (w1\<lparr>heap := h3\<rparr>))))"

definition iterattrs :: "ref \<Rightarrow> world \<Rightarrow> (string \<times> json) list" where
  "iterattrs self w =
     (let n = objs w self
      in if to_be_stored n then map (\<lambda>(k, v). (k, content (heap w) v)) (attrs_cache n)
         else db_attrs n)"

definition get_attrs :: "ref \<Rightarrow> world \<Rightarrow> (string \<times> json) list" where
  "get_attrs self w = iterattrs self w"

section \<open>Extras\<close>

text \<open>
  Modelled from the spec: \<open>_get_db_extra\<close> and \<open>_db_iterextras\<close> are abstract in the
  sources; they read the extras rows of the node and raise an attribute error for a
  missing key. The positional arguments after the key are a list, as \<open>*args\<close> is.
\<close>

definition get_db_extra :: "string \<Rightarrow> node \<Rightarrow> error + json" where
  "get_db_extra key n =
     (case map_of (db_extras n) key of None \<Rightarrow> Inl AttributeError | Some j \<Rightarrow> Inr j)"

definition db_iterextras :: "node \<Rightarrow> (string \<times> json) list" where
  "db_iterextras n = db_extras n"

definition get_extra :: "string \<Rightarrow> json list \<Rightarrow> node \<Rightarrow> error + json" where
  "get_extra key args n =
     (if length args > 1 then Inl ValueError
      else case (if \<not> is_stored n then Inl AttributeError else get_db_extra key n) of
             Inl AttributeError \<Rightarrow> (case args of [] \<Rightarrow> Inl AttributeError | d # _ \<Rightarrow> Inr d)
           | r \<Rightarrow> r)"

definition iterextras :: "node \<Rightarrow> (string \<times> json) list" where
  "iterextras n = (if to_be_stored n then [] else db_iterextras n)"

definition get_extras :: "node \<Rightarrow> (string \<times> json) list" where
  "get_extras n = iterextras n"

section \<open>Construction\<close>

text \<open>
  \<open>__init__\<close>: a new node is unstored, with empty attribute and link caches. The class
  attributes of \<open>AbstractNode\<close> are the defaults; a subclass is given by its name and
  its \<open>_storable\<close> flag. \<open>create_node\<close> allocates the object in the world.
\<close>

definition init_node :: "string \<Rightarrow> bool \<Rightarrow> nat \<Rightarrow> node" where
  "init_node cls st u =
     \<lparr>node_type = cls, storable = st, cacheable = True,
      updatable_attributes = [], hash_ignored_attributes = [],
      to_be_stored = True, attrs_cache = [], incoming_cache = [],
      uuid = u, label = [], description = [], folder = [], computer = None,
      db_attrs = [], db_extras = []\<rparr>"

definition create_node :: "string \<Rightarrow> bool \<Rightarrow> world \<Rightarrow> ref \<times> world" where
  "create_node cls st w =
     (next_ref w, put_node (next_ref w) (init_node cls st (next_ref w)) (w\<lparr>next_ref := Suc (next_ref w)\<rparr>))"

definition empty_world :: world where
  "empty_world =
     \<lparr>heap = [], objs = (\<lambda>r. init_node [] False r), next_ref = 0,
      db_nodes = [], db_links = [], groups = []\<rparr>"

section \<open>Hashing\<close>

definition get_objects_to_hash ::
  "env \<Rightarrow> ref \<Rightarrow> world \<Rightarrow> string \<times> (string \<times> json) list \<times> (string \<times> string) list \<times> nat option" where
  "get_objects_to_hash e self w =
     (let n = objs w self
      in (version e,
          filter (\<lambda>(key, val). key \<notin> set (hash_ignored_attributes n)
                              \<and> key \<notin> set (updatable_attributes n)) (get_attrs self w),
          folder n,
          computer n))"

definition get_hash :: "env \<Rightarrow> bool \<Rightarrow> ref \<Rightarrow> world \<Rightarrow> error + string option" where
  "get_hash e ignore_errors self w =
     (case make_hash e (get_objects_to_hash e self w) of
        Inr h \<Rightarrow> Inr (Some h)
      | Inl err \<Rightarrow> (if ignore_errors then Inr None else Inl err))"

definition iter_all_same_nodes :: "env \<Rightarrow> ref \<Rightarrow> world \<Rightarrow> ref list" where
  "iter_all_same_nodes e self w =
     (let n = objs w self in
      if \<not> cacheable n then []
      else case get_hash e True self w of
             Inr (Some h) \<Rightarrow>
               (if h = [] then []
                else filter (\<lambda>r. is_valid_cache e r w)
                       (filter (\<lambda>r. node_type (objs w r) = node_type n
                                   \<and> map_of (db_extras (objs w r)) ''_aiida_hash'' = Some (JStr h))
                          (db_nodes w)))
           | _ \<Rightarrow> [])"

definition get_same_node :: "env \<Rightarrow> ref \<Rightarrow> world \<Rightarrow> ref option" where
  "get_same_node e self w =
     (case iter_all_same_nodes e self w of [] \<Rightarrow> None | c # _ \<Rightarrow> Some c)"

section \<open>Links\<close>

text \<open>
  \<open>get_stored_link_triples\<close> queries the link table for the rows entering or leaving
  the node, filtered by link type (the empty tuple means every type). The filters by
  node class and by label pattern are not used by the callers below and are left out.
\<close>

definition get_stored_link_triples :: "link_type list \<Rightarrow> bool \<Rightarrow> ref \<Rightarrow> world \<Rightarrow> link_triple list" where
  "get_stored_link_triples lts outgoing self w =
     (if outgoing
      then map (\<lambda>(s, ty, l, t). (t, ty, l))
             (filter (\<lambda>(s, ty, l, t). s = self \<and> (lts = [] \<or> ty \<in> set lts)) (db_links w))
      else map (\<lambda>(s, ty, l, t). (s, ty, l))
             (filter (\<lambda>(s, ty, l, t). t = self \<and> (lts = [] \<or> ty \<in> set lts)) (db_links w)))"

definition get_outgoing :: "link_type list \<Rightarrow> ref \<Rightarrow> world \<Rightarrow> link_triple list" where
  "get_outgoing lts self w = get_stored_link_triples lts True self w"

text \<open>
  The edges of the provenance graph: the stored links and the cached links of every
  allocated node object, restricted to the provenance-tracking link types.
\<close>

definition stored_edges :: "env \<Rightarrow> world \<Rightarrow> (ref \<times> ref) list" where
  "stored_edges e w =
     map (\<lambda>(s, ty, l, t). (s, t))
       (filter (\<lambda>(s, ty, l, t). ty \<in> set (provenance_types e)) (db_links w))"

definition cached_edges_of :: "env \<Rightarrow> world \<Rightarrow> ref \<Rightarrow> (ref \<times> ref) list" where
  "cached_edges_of e w t =
     map (\<lambda>(s, ty, l). (s, t))
       (filter (\<lambda>(s, ty, l). ty \<in> set (provenance_types e)) (incoming_cache (objs w t)))"

definition provenance_edges :: "env \<Rightarrow> world \<Rightarrow> (ref \<times> ref) list" where
  "provenance_edges e w = stored_edges e w @ concat (map (cached_edges_of e w) [0..<next_ref w])"

definition reachable :: "(ref \<times> ref) list \<Rightarrow> ref \<Rightarrow> ref \<Rightarrow> bool" where
  "reachable es a b = (a = b \<or> (a, b) \<in> (set es)\<^sup>+)"

text \<open>
  Modelled from the spec: \<open>validate_link\<close> (imported from \<open>aiida.orm.utils.links\<close>)
  validates the role compatibility of source, target and link type, then acyclicity for
  the provenance-tracking link types (it fails if the source is reachable from the target
  through the existing stored and cached links of these types), then the degree
  constraints. Each violation is a \<open>ValueError\<close>.
\<close>

definition validate_link :: "env \<Rightarrow> ref \<Rightarrow> ref \<Rightarrow> link_type \<Rightarrow> string \<Rightarrow> world \<Rightarrow> error + unit" where
  "validate_link e source target lt lbl w =
     (if \<not> link_roles_ok e (objs w source) (objs w target) lt then Inl ValueError
      else if lt \<in> set (provenance_types e) \<and> reachable (provenance_edges e w) target source
        then Inl ValueError
      else if \<not> link_degree_ok e w source target lt lbl then Inl ValueError
      else Inr ())"

definition validate_incoming :: "env \<Rightarrow> ref \<Rightarrow> link_type \<Rightarrow> string \<Rightarrow> ref \<Rightarrow> world \<Rightarrow> error + unit" where
  "validate_incoming e source lt lbl self w = validate_link e source self lt lbl w"

definition validate_outgoing :: "ref \<Rightarrow> link_type \<Rightarrow> string \<Rightarrow> ref \<Rightarrow> world \<Rightarrow> error + unit" where
  "validate_outgoing target lt lbl self w = Inr ()"

text \<open>
  \<open>_add_cachelink_from\<close>: the test \<open>link_triple in self._incoming_cache\<close> compares
  the triples componentwise, the source nodes by the identity of the objects.
\<close>

definition add_cachelink_from :: "ref \<Rightarrow> link_type \<Rightarrow> string \<Rightarrow> ref \<Rightarrow> world \<Rightarrow> (error + unit) \<times> world" where
  "add_cachelink_from source lt lbl self w =
     (let n = objs w self; link_triple = (source, lt, lbl)
      in if link_triple \<in> set (incoming_cache n) then (Inl UniquenessError, w)
         else (Inr (), put_node self (n\<lparr>incoming_cache := incoming_cache n @ [link_triple]\<rparr>) w))"

text \<open>
  Modelled from the spec: \<open>_add_dblink_from\<close> is abstract in the sources; it writes the
  link directly to durable storage, and a duplicate (source, label) into the same target
  fails with a uniqueness error.
\<close>

definition add_dblink_from :: "ref \<Rightarrow> link_type \<Rightarrow> string \<Rightarrow> ref \<Rightarrow> world \<Rightarrow> (error + unit) \<times> world" where
  "add_dblink_from src lt lbl self w =
     (if \<exists>(s, ty, l, t) \<in> set (db_links w). s = src \<and> l = lbl \<and> t = self
      then (Inl UniquenessError, w)
      else (Inr (), w\<lparr>db_links := db_links w @ [(src, lt, lbl, self)]\<rparr>))"

definition add_incoming :: "env \<Rightarrow> ref \<Rightarrow> link_type \<Rightarrow> string \<Rightarrow> ref \<Rightarrow> world \<Rightarrow> (error + unit) \<times> world" where
  "add_incoming e source lt lbl self w =
     (case validate_incoming e source lt lbl self w of
        Inl err \<Rightarrow> (Inl err, w)
      | Inr _ \<Rightarrow>
          (case validate_outgoing self lt lbl source w of
             Inl err \<Rightarrow> (Inl err, w)
           | Inr _ \<Rightarrow>
               if is_stored (objs w self) \<and> is_stored (objs w source)
               then add_dblink_from source lt lbl self w
               else add_cachelink_from source lt lbl self w))"




section \<open>Extras of a stored node\<close>

text \<open>
  Modelled from the spec: \<open>_set_db_extra\<close> is abstract in the sources; it writes the
  extra and, in exclusive mode, fails with a uniqueness error if the key exists.
\<close>

definition set_db_extra :: "string \<Rightarrow> json \<Rightarrow> bool \<Rightarrow> ref \<Rightarrow> world \<Rightarrow> (error + unit) \<times> world" where
  "set_db_extra key j exclusive self w =
     (let n = objs w self
      in if exclusive \<and> map_of (db_extras n) key \<noteq> None then (Inl UniquenessError, w)
         else (Inr (), put_node self (n\<lparr>db_extras := AList.update key j (db_extras n)\<rparr>) w))"

definition set_extra :: "env \<Rightarrow> string \<Rightarrow> json \<Rightarrow> bool \<Rightarrow> ref \<Rightarrow> world \<Rightarrow> (error + unit) \<times> world" where
  "set_extra e key j exclusive self w =
     (case validate_attribute_key e key of
        Inl err \<Rightarrow> (Inl err, w)
      | Inr _ \<Rightarrow>
          if to_be_stored (objs w self) then (Inl ModificationNotAllowed, w)
          else set_db_extra key (clean_json j) exclusive self w)"

section \<open>Storing\<close>

definition check_are_parents_stored :: "ref \<Rightarrow> world \<Rightarrow> error + unit" where
  "check_are_parents_stored self w =
     (if \<exists>(src, lt, lbl) \<in> set (incoming_cache (objs w self)). \<not> is_stored (objs w src)
      then Inl ModificationNotAllowed else Inr ())"

text \<open>
  Modelled from the spec: \<open>_store_cached_input_links\<close> and \<open>_db_store\<close> are abstract
  in the sources. Persisting writes the record with the attributes and the hash extra,
  flushes every cached incoming link whose source is persisted to durable storage, keeps
  the others cached, and marks the node stored; the durable write is atomic, so a failure
  leaves nothing committed.
\<close>

fun flush_links :: "link_triple list \<Rightarrow> ref \<Rightarrow> world \<Rightarrow> (error + link_triple list) \<times> world" where
  "flush_links [] self w = (Inr [], w)"
| "flush_links ((s, lt, l) # ts) self w =
     (if is_stored (objs w s) then
        (case add_dblink_from s lt l self w of
           (Inl err, w') \<Rightarrow> (Inl err, w')
         | (Inr _, w') \<Rightarrow> flush_links ts self w')
      else
        (case flush_links ts self w of
           (Inl err, w') \<Rightarrow> (Inl err, w')
         | (Inr rest, w') \<Rightarrow> (Inr ((s, lt, l) # rest), w')))"

definition store_cached_input_links :: "ref \<Rightarrow> world \<Rightarrow> (error + unit) \<times> world" where
  "store_cached_input_links self w =
     (case flush_links (incoming_cache (objs w self)) self w of
        (Inl err, w') \<Rightarrow> (Inl err, w)
      | (Inr rest, w') \<Rightarrow> (Inr (), put_node self ((objs w' self)\<lparr>incoming_cache := rest\<rparr>) w'))"

definition db_store :: "env \<Rightarrow> bool \<Rightarrow> ref \<Rightarrow> world \<Rightarrow> (error + unit) \<times> world" where
  "db_store e with_transaction self w =
     (case backend_failure e self w of
        Some err \<Rightarrow> (Inl err, w)
      | None \<Rightarrow>
          (let n = objs w self;
               h = (case get_hash e True self w of Inr (Some x) \<Rightarrow> JStr x | _ \<Rightarrow> JNone);
               n' = n\<lparr>to_be_stored := False, attrs_cache := [],
                      db_attrs := get_attrs self w,
                      db_extras := AList.update ''_aiida_hash'' h (db_extras n)\<rparr>;
               w1 = put_node self n' (w\<lparr>db_nodes := db_nodes w @ [self]\<rparr>)
           in case store_cached_input_links self w1 of
                (Inl err, w2) \<Rightarrow> (Inl err, w)
              | (Inr u, w2) \<Rightarrow> (Inr (), w2)))"

definition autogroup_step :: "env \<Rightarrow> ref \<Rightarrow> world \<Rightarrow> (error + ref) \<times> world" where
  "autogroup_step e self w =
     (case current_autogroup e of
        None \<Rightarrow> (Inr self, w)
      | Some NotAnAutogroup \<Rightarrow> (Inl ValidationError, w)
      | Some (Autogroup is_to_be_grouped group_label) \<Rightarrow>
          (if is_to_be_grouped self then
             (case group_label of
                None \<Rightarrow> (Inr self, w)
              | Some g \<Rightarrow> (Inr self, w\<lparr>groups := groups w @ [(g, self)]\<rparr>))
           else (Inr self, w)))"

text \<open>
  The body of \<open>store\<close>. The branch taken when an equivalent node is found
  (\<open>_store_from_cache\<close> followed by \<open>_add_outputs_from_cache\<close>) is the argument
  \<open>from_cache\<close>, since these call \<open>store\<close> again.
\<close>

definition store_with ::
  "(ref \<Rightarrow> ref \<Rightarrow> world \<Rightarrow> (error + unit) \<times> world) \<Rightarrow> env \<Rightarrow> bool \<Rightarrow> bool option \<Rightarrow> ref \<Rightarrow> world
     \<Rightarrow> (error + ref) \<times> world" where
  "store_with from_cache e with_transaction use_cache self w =
     (let n = objs w self in
      if \<not> storable n then (Inl StoringNotAllowed, w)
      else if \<not> validate_hook e self w then (Inl ValidationError, w)
      else if to_be_stored n then
        (case check_are_parents_stored self w of
           Inl err \<Rightarrow> (Inl err, w)
         | Inr _ \<Rightarrow>
             (let uc = (case use_cache of None \<Rightarrow> get_use_cache e (node_type n) | Some b \<Rightarrow> b);
                  same_node = (if uc then get_same_node e self w else None)
              in case (case same_node of
                         Some c \<Rightarrow> from_cache c self w
                       | None \<Rightarrow> db_store e with_transaction self w) of
                   (Inl err, w') \<Rightarrow> (Inl err, w')
                 | (Inr u, w') \<Rightarrow> autogroup_step e self w'))
      else (Inr self, w))"

text \<open>\<open>self.store(with_transaction=..., use_cache=False)\<close>: no equivalent node is looked up.\<close>

definition store_nocache :: "env \<Rightarrow> bool \<Rightarrow> ref \<Rightarrow> world \<Rightarrow> (error + ref) \<times> world" where
  "store_nocache e with_transaction self w =
     store_with (\<lambda>c s w'. (Inl InternalError, w')) e with_transaction (Some False) self w"

fun copy_attrs :: "env \<Rightarrow> (string \<times> json) list \<Rightarrow> ref \<Rightarrow> world \<Rightarrow> (error + unit) \<times> world" where
  "copy_attrs e [] self w = (Inr (), w)"
| "copy_attrs e ((key, val) # kvs) self w =
     (if key \<noteq> sealed_key e then
        (case set_attr e key (Imm val) True True self w of
           (Inl err, w') \<Rightarrow> (Inl err, w')
         | (Inr u, w') \<Rightarrow> copy_attrs e kvs self w')
      else copy_attrs e kvs self w)"

definition store_from_cache :: "env \<Rightarrow> ref \<Rightarrow> bool \<Rightarrow> ref \<Rightarrow> world \<Rightarrow> (error + unit) \<times> world" where
  "store_from_cache e cache_node with_transaction self w =
     (if node_type (objs w self) \<noteq> node_type (objs w cache_node) then (Inl AssertionError, w)
      else
        (let c = objs w cache_node;
             w1 = put_node self ((objs w self)\<lparr>label := label c, description := description c\<rparr>) w
         in case copy_attrs e (iterattrs cache_node w1) self w1 of
              (Inl err, w2) \<Rightarrow> (Inl err, w2)
            | (Inr u, w2) \<Rightarrow>
                (let w3 = put_node self ((objs w2 self)\<lparr>folder := folder (objs w2 cache_node)\<rparr>) w2
                 in if get_outgoing [RETURN] cache_node w3 \<noteq> [] then (Inl ValueError, w3)
                    else
                      (case store_nocache e with_transaction self w3 of
                         (Inl err, w4) \<Rightarrow> (Inl err, w4)
                       | (Inr r, w4) \<Rightarrow>
                           set_extra e ''_aiida_cached_from'' (JInt (int (uuid (objs w4 cache_node))))
                             False self w4))))"

text \<open>
  Modelled from the spec: \<open>clone\<close> is defined by the data subclasses, outside the
  sources; it makes a new unstored node object of the same class with the attributes and
  the repository content of the original.
\<close>

fun load_attrs :: "(string \<times> json) list \<Rightarrow> heap \<Rightarrow> (string \<times> pyval) list \<times> heap" where
  "load_attrs [] h = ([], h)"
| "load_attrs ((k, j) # kvs) h =
     (let (v, h1) = from_db j h; (rest, h2) = load_attrs kvs h1 in ((k, v) # rest, h2))"

definition clone :: "ref \<Rightarrow> world \<Rightarrow> ref \<times> world" where
  "clone r w =
     (let n = objs w r;
          (attrs, h) = load_attrs (iterattrs r w) (heap w);
          new = next_ref w
      in (new, put_node new (n\<lparr>to_be_stored := True, attrs_cache := attrs, incoming_cache := [],
                               uuid := new, db_attrs := [], db_extras := []\<rparr>)
                 (w\<lparr>heap := h, next_ref := Suc new\<rparr>)))"

fun outputs_loop ::
  "(ref \<Rightarrow> world \<Rightarrow> (error + ref) \<times> world) \<Rightarrow> env \<Rightarrow> link_triple list \<Rightarrow> ref \<Rightarrow> world
     \<Rightarrow> (error + unit) \<times> world" where
  "outputs_loop st e [] self w = (Inr (), w)"
| "outputs_loop st e ((entry_node, lt, lbl) # es) self w =
     (let (new_node, w1) = clone entry_node w
      in case add_incoming e self CREATE lbl new_node w1 of
           (Inl err, w2) \<Rightarrow> (Inl err, w2)
         | (Inr u, w2) \<Rightarrow>
             (case st new_node w2 of
                (Inl err, w3) \<Rightarrow> (Inl err, w3)
              | (Inr r, w3) \<Rightarrow> outputs_loop st e es self w3))"

definition add_outputs_from_cache ::
  "(ref \<Rightarrow> world \<Rightarrow> (error + ref) \<times> world) \<Rightarrow> env \<Rightarrow> ref \<Rightarrow> ref \<Rightarrow> world \<Rightarrow> (error + unit) \<times> world" where
  "add_outputs_from_cache st e cache_node self w =
     outputs_loop st e (get_outgoing [CREATE] cache_node w) self w"

definition from_cache_path ::
  "(ref \<Rightarrow> world \<Rightarrow> (error + ref) \<times> world) \<Rightarrow> env \<Rightarrow> bool \<Rightarrow> ref \<Rightarrow> ref \<Rightarrow> world
     \<Rightarrow> (error + unit) \<times> world" where
  "from_cache_path st e with_transaction same_node self w =
     (case store_from_cache e same_node with_transaction self w of
        (Inl err, w') \<Rightarrow> (Inl err, w')
      | (Inr u, w') \<Rightarrow> add_outputs_from_cache st e same_node self w')"

text \<open>
  \<open>store\<close>. The first argument bounds the nesting of the stores of cloned outputs
  (the interpreter's recursion limit); every other path is independent of it.
\<close>

primrec store :: "nat \<Rightarrow> env \<Rightarrow> bool \<Rightarrow> bool option \<Rightarrow> ref \<Rightarrow> world \<Rightarrow> (error + ref) \<times> world" where
  "store 0 e with_transaction use_cache self w =
     store_with (from_cache_path (\<lambda>r w'. (Inl RecursionError, w')) e with_transaction)
       e with_transaction use_cache self w"
| "store (Suc k) e with_transaction use_cache self w =
     store_with (from_cache_path (store k e True None) e with_transaction)
       e with_transaction use_cache self w"

fun input_loop ::
  "(ref \<Rightarrow> world \<Rightarrow> (error + ref) \<times> world) \<Rightarrow> link_triple list \<Rightarrow> world \<Rightarrow> (error + unit) \<times> world" where
  "input_loop st [] w = (Inr (), w)"
| "input_loop st ((src, lt, lbl) # ts) w =
     (if \<not> is_stored (objs w src) then
        (case st src w of
           (Inl err, w') \<Rightarrow> (Inl err, w')
         | (Inr r, w') \<Rightarrow> input_loop st ts w')
      else input_loop st ts w)"

definition store_input_nodes ::
  "(ref \<Rightarrow> world \<Rightarrow> (error + ref) \<times> world) \<Rightarrow> ref \<Rightarrow> world \<Rightarrow> (error + unit) \<times> world" where
  "store_input_nodes st self w =
     (if is_stored (objs w self) then (Inl ModificationNotAllowed, w)
      else input_loop st (incoming_cache (objs w self)) w)"

text \<open>
  Modelled from the spec: \<open>_db_store_all\<close> is abstract in the sources; \<open>store_all\<close> is
  like \<open>store\<close> but first persists the direct unstored sources of the cached links.
\<close>

definition db_store_all :: "nat \<Rightarrow> env \<Rightarrow> bool \<Rightarrow> bool option \<Rightarrow> ref \<Rightarrow> world \<Rightarrow> (error + ref) \<times> world" where
  "db_store_all k e with_transaction use_cache self w =
     (case store_input_nodes (store k e False None) self w of
        (Inl err, w1) \<Rightarrow> (Inl err, w1)
      | (Inr u, w1) \<Rightarrow> store k e False use_cache self w1)"

definition store_all :: "nat \<Rightarrow> env \<Rightarrow> bool \<Rightarrow> bool option \<Rightarrow> ref \<Rightarrow> world \<Rightarrow> (error + ref) \<times> world" where
  "store_all k e with_transaction use_cache self w =
     (if is_stored (objs w self) then (Inl ModificationNotAllowed, w)
      else if \<exists>(src, lt, lbl) \<in> set (incoming_cache (objs w self)).
                check_are_parents_stored src w = Inl ModificationNotAllowed
        then (Inl ModificationNotAllowed, w)
      else db_store_all k e with_transaction use_cache self w)"

section \<open>Graph deletion\<close>

text \<open>
  Modelled from the spec: \<open>delete_nodes\<close> (imported by the tests from
  \<open>aiida.utils.delete_nodes\<close>) and \<open>load_node\<close> are not part of the sources. The
  closure expands breadth-first from the roots over the stored links; CREATE and INPUT
  links are always followed forward, CALL links if \<open>follow_calls\<close>, RETURN links if
  \<open>follow_returns\<close>; nodes already in the closure are not visited again. The members
  of the closure and their links are removed from durable storage. \<open>load_node\<close> fails
  with a not-found error for an identifier that resolves to no stored node.
\<close>

definition link_types_to_follow :: "bool \<Rightarrow> bool \<Rightarrow> link_type list" where
  "link_types_to_follow follow_calls follow_returns =
     [CREATE, INPUT] @ (if follow_calls then [CALL] else []) @ (if follow_returns then [RETURN] else [])"

definition successors :: "link_type list \<Rightarrow> (ref \<times> link_type \<times> string \<times> ref) list \<Rightarrow> ref list \<Rightarrow> ref list" where
  "successors lts ls ops =
     remdups (map (\<lambda>(s, ty, l, t). t) (filter (\<lambda>(s, ty, l, t). s \<in> set ops \<and> ty \<in> set lts) ls))"

function closure ::
  "link_type list \<Rightarrow> (ref \<times> link_type \<times> string \<times> ref) list \<Rightarrow> ref list \<Rightarrow> ref list \<Rightarrow> ref list" where
  "closure lts ls operational_set to_delete =
     (let new_pks = filter (\<lambda>x. x \<notin> set to_delete) (successors lts ls operational_set)
      in if new_pks = [] then to_delete else closure lts ls new_pks (to_delete @ new_pks))"
  by pat_completeness auto
termination
proof (relation "measure (\<lambda>(lts, ls, ops, del). card (set (map (\<lambda>(s, ty, l, t). t) ls) - set del))")
  show "wf (measure (\<lambda>(lts, ls, ops, del). card (set (map (\<lambda>(s, ty, l, t). t) ls) - set del)))"
    by simp
next
  fix lts :: "link_type list" and ls :: "(ref \<times> link_type \<times> string \<times> ref) list"
    and operational_set to_delete new_pks :: "ref list"
  assume new: "new_pks = filter (\<lambda>x. x \<notin> set to_delete) (successors lts ls operational_set)"
    and ne: "new_pks \<noteq> []"
  define T where "T = set (map (\<lambda>(s, ty, l, t). t) ls)"
  from ne obtain x where x: "x \<in> set new_pks" by (cases new_pks) auto
  with new have x1: "x \<notin> set to_delete" and x2: "x \<in> T"
    by (force simp: successors_def T_def)+
  have "T - set (to_delete @ new_pks) \<subseteq> T - set to_delete" by auto
  moreover have "x \<in> T - set to_delete" "x \<notin> T - set (to_delete @ new_pks)"
    using x x1 x2 by auto
  ultimately have "T - set (to_delete @ new_pks) \<subset> T - set to_delete" by blast
  moreover have "finite (T - set to_delete)" by (simp add: T_def)
  ultimately have "card (T - set (to_delete @ new_pks)) < card (T - set to_delete)"
    by (rule psubset_card_mono [rotated])
  then show "((lts, ls, new_pks, to_delete @ new_pks), (lts, ls, operational_set, to_delete))
      \<in> measure (\<lambda>(lts, ls, ops, del). card (set (map (\<lambda>(s, ty, l, t). t) ls) - set del))"
    by (simp add: T_def)
qed

definition delete_nodes :: "bool \<Rightarrow> bool \<Rightarrow> ref list \<Rightarrow> world \<Rightarrow> world" where
  "delete_nodes follow_calls follow_returns pks w =
     (let pks_set_to_delete =
            closure (link_types_to_follow follow_calls follow_returns) (db_links w)
              (remdups pks) (remdups pks)
      in w\<lparr>db_nodes := filter (\<lambda>r. r \<notin> set pks_set_to_delete) (db_nodes w),
           db_links := filter (\<lambda>(s, ty, l, t). s \<notin> set pks_set_to_delete \<and> t \<notin> set pks_set_to_delete)
                         (db_links w)\<rparr>)"

definition load_node :: "ref \<Rightarrow> world \<Rightarrow> error + ref" where
  "load_node identifier w =
     (if identifier \<in> set (db_nodes w) then Inr identifier else Inl NotExistent)"

section \<open>Example worlds\<close>

text \<open>
  A concrete environment (separator \<open>.\<close>, caching on, every hook passing, CREATE and
  INPUT as the provenance-tracking link types) and the stored node of
  \<open>test_attribute_mutability\<close>, with its two attributes.
\<close>

definition test_env :: env where
  "test_env =
     \<lparr>attribute_sep = CHR ''.'', version = ''1.0'',
      make_hash = (\<lambda>(v, attrs, fld, comp). Inr (''#'' @ concat (map fst attrs))),
      get_use_cache = (\<lambda>cls. True),
      validate_hook = (\<lambda>r w. True),
      is_valid_cache = (\<lambda>r w. True),
      sealed_key = ''_sealed'',
      current_autogroup = None,
      backend_failure = (\<lambda>r w. None),
      provenance_types = [CREATE, INPUT],
      link_roles_ok = (\<lambda>s t lt. True),
      link_degree_ok = (\<lambda>w s t lt lbl. True)\<rparr>"

definition stored_example :: world where
  "stored_example =
     put_node 0 ((init_node ''Data'' True 0)
                   \<lparr>to_be_stored := False,
                    db_attrs := [(''bool'', JBool True), (''integer'', JInt 123)]\<rparr>)
       (empty_world\<lparr>next_ref := 1, db_nodes := [0]\<rparr>)"



text \<open>
  A client program on the attributes of one node: a sequence of \<open>_set_attr\<close> calls
  with the default flags (cleaning on), \<open>_append_to_attr\<close> calls and \<open>_del_attr\<close>
  calls. A call that raises leaves the world as it was when the exception was raised, and
  the program goes on.
\<close>

datatype attr_op = SetAttr string pyval | AppendToAttr string pyval bool | DelAttr string

fun run_ops :: "env \<Rightarrow> attr_op list \<Rightarrow> ref \<Rightarrow> world \<Rightarrow> world" where
  "run_ops e [] self w = w"
| "run_ops e (SetAttr key val # ops) self w =
     run_ops e ops self (snd (set_attr e key val True True self w))"
| "run_ops e (AppendToAttr key val clean # ops) self w =
     run_ops e ops self (snd (append_to_attr e key val clean self w))"
| "run_ops e (DelAttr key # ops) self w =
     run_ops e ops self (snd (del_attr key True self w))"








text \<open>
  The setting of \<open>test_append_no_side_effects\<close>: a new node, and the list
  \<open>[1, 2, 3]\<close> held by the caller at address 0.
\<close>

definition list_example :: world where
  "list_example =
     put_node 0 (init_node ''Data'' True 0)
       (empty_world\<lparr>heap := [[JInt 1, JInt 2, JInt 3]], next_ref := 1\<rparr>)"

text \<open>
  The list object at address \<open>a\<close> exists and the attribute cache of the node holds
  no reference to it: it is held by the caller only.
\<close>

definition unaliased :: "addr \<Rightarrow> ref \<Rightarrow> world \<Rightarrow> bool" where
  "unaliased a self w =
     (a < length (heap w) \<and> (\<forall>(k, v) \<in> set (attrs_cache (objs w self)). v \<noteq> ListObj a))"

text \<open>
  The graph of \<open>_create_calls_n_returns_graph\<close>: nine stored nodes, in the order
  \<open>in1, in2, wf, slave1, outp1, outp2, slave2, outp3, outp4\<close> (references 0 to 8), and
  the eleven links the test adds. In the test the workflow has the input \<open>in1\<close> only;
  \<open>with_second_input\<close> adds the link that makes \<open>in2\<close> an input of the workflow as well.
\<close>

definition calls_n_returns_graph :: world where
  "calls_n_returns_graph =
     \<lparr>heap = [],
      objs = (\<lambda>r. (init_node ''Node'' True r)\<lparr>to_be_stored := False\<rparr>),
      next_ref = 9,
      db_nodes = [0, 1, 2, 3, 4, 5, 6, 7, 8],
      db_links =
        [(0, INPUT, ''link'', 2),
         (0, INPUT, ''link'', 3),
         (1, INPUT, ''link'', 3),
         (1, INPUT, ''link'', 6),
         (2, CALL, ''link'', 3),
         (2, CALL, ''link'', 6),
         (3, CREATE, ''link'', 4),
         (6, CREATE, ''link'', 5),
         (2, RETURN, ''link'', 5),
         (2, CREATE, ''link'', 7),
         (2, RETURN, ''link'', 8)],
      groups = []\<rparr>"

definition with_second_input :: "world \<Rightarrow> world" where
  "with_second_input w = w\<lparr>db_links := db_links w @ [(1, INPUT, ''link'', 2)]\<rparr>"

definition load_all :: "ref list \<Rightarrow> world \<Rightarrow> (error + ref) list" where
  "load_all rs w = map (\<lambda>r. load_node r w) rs"

text \<open>
  \<open>test_loop_not_allowed\<close>: four stored nodes, then the chain of CREATE links
  \<open>n1 \<rightarrow> n2 \<rightarrow> n3 \<rightarrow> n4\<close> added with \<open>add_incoming\<close> (references 0 to 3).
\<close>

definition four_stored :: world where
  "four_stored =
     \<lparr>heap = [],
      objs = (\<lambda>r. (init_node ''Node'' True r)\<lparr>to_be_stored := False\<rparr>),
      next_ref = 4, db_nodes = [0, 1, 2, 3], db_links = [], groups = []\<rparr>"

definition chain_world :: world where
  "chain_world =
     snd (add_incoming test_env 2 CREATE ''l'' 3
       (snd (add_incoming test_env 1 CREATE ''l'' 2
         (snd (add_incoming test_env 0 CREATE ''l'' 1 four_stored)))))"




text \<open>
  Well-formedness of the object table: a reference that has not been handed out yet
  denotes no stored node. \<open>stays_stored\<close> relates the worlds before and after a call
  that unstores nothing and leaves the class flag \<open>_storable\<close> of the existing objects
  alone; \<open>same_flags\<close> is the case where no node is stored or created either.
\<close>

definition fresh_unstored :: "world \<Rightarrow> bool" where
  "fresh_unstored w = (\<forall>r. next_ref w \<le> r \<longrightarrow> to_be_stored (objs w r))"

definition stays_stored :: "world \<Rightarrow> world \<Rightarrow> bool" where
  "stays_stored w w' =
     (fresh_unstored w' \<and> next_ref w \<le> next_ref w'
      \<and> (\<forall>r. is_stored (objs w r) \<longrightarrow> is_stored (objs w' r))
      \<and> (\<forall>r. r < next_ref w \<longrightarrow> storable (objs w' r) = storable (objs w r)))"

text \<open>
  What the frame lemmas establish of a store function and of the branch taken for an
  equivalent node: in a well-formed world, on an allocated node, no stored node becomes
  unstored, and after a successful return the node itself is stored.
\<close>

definition store_spec :: "(ref \<Rightarrow> world \<Rightarrow> (error + ref) \<times> world) \<Rightarrow> bool" where
  "store_spec st =
     (\<forall>r w res w'. fresh_unstored w \<longrightarrow> r < next_ref w \<longrightarrow> st r w = (res, w') \<longrightarrow>
        stays_stored w w' \<and> (\<forall>x. res = Inr x \<longrightarrow> x = r \<and> is_stored (objs w' r)))"

definition handler_spec :: "(ref \<Rightarrow> ref \<Rightarrow> world \<Rightarrow> (error + unit) \<times> world) \<Rightarrow> bool" where
  "handler_spec h =
     (\<forall>c r w res w'. fresh_unstored w \<longrightarrow> r < next_ref w \<longrightarrow> h c r w = (res, w') \<longrightarrow>
        stays_stored w w' \<and> (res = Inr () \<longrightarrow> is_stored (objs w' r)))"

definition same_flags :: "world \<Rightarrow> world \<Rightarrow> bool" where
  "same_flags w w' =
     (next_ref w' = next_ref w \<and> db_nodes w' = db_nodes w \<and> db_links w' = db_links w
      \<and> (\<forall>r. to_be_stored (objs w' r) = to_be_stored (objs w r))
      \<and> (\<forall>r. storable (objs w' r) = storable (objs w r)))"

text \<open>
  \<open>n = Data(); n.store()\<close>: one new node, and the world after its first store.
\<close>

definition one_new :: world where
  "one_new = snd (create_node ''Data'' True empty_world)"

definition once_stored :: world where
  "once_stored = snd (store 0 test_env True None 0 one_new)"


text \<open>
  \<open>test_storeall_with_unstored_grandparents\<close>: three new nodes \<open>n1\<close>, \<open>n2\<close>,
  \<open>endnode\<close> (references 0, 1, 2) with the cached links \<open>n1 \<rightarrow> n2 \<rightarrow> endnode\<close>, and the
  world after \<open>n1.store()\<close>.
\<close>

definition grandparents :: world where
  "grandparents =
     snd (add_incoming test_env 1 INPUT ''N2'' 2
       (snd (add_incoming test_env 0 INPUT ''N1'' 1
         (snd (create_node ''Node'' True
           (snd (create_node ''Node'' True
             (snd (create_node ''Node'' True empty_world)))))))))"

definition grandparent_stored :: world where
  "grandparent_stored = snd (store 0 test_env True None 0 grandparents)"

chapter \<open>Properties\<close>

section \<open>Helper facts about values\<close>

lemma from_db_content: "from_db j h = (v, h') \<Longrightarrow> content h' v = j"
  by (cases j) (auto simp: from_db_def alloc_def content_def cell_def)

lemma clean_value_content:
  "clean_value v h = (v', h') \<Longrightarrow> content h' v' = clean_json (content h v)"
  unfolding clean_value_def by (rule from_db_content)

lemma from_db_heap: "from_db j h = (v, h') \<Longrightarrow> \<exists>ys. h' = h @ ys"
  by (cases j) (auto simp: from_db_def alloc_def)

lemma clean_value_heap: "clean_value v h = (v', h') \<Longrightarrow> \<exists>ys. h' = h @ ys"
  unfolding clean_value_def by (rule from_db_heap)

lemma cell_append: "a < length h \<Longrightarrow> cell (h @ ys) a = cell h a"
  by (simp add: cell_def nth_append)

lemma content_append:
  "(case v of ListObj a \<Rightarrow> a < length h | Imm j \<Rightarrow> True) \<Longrightarrow> content (h @ ys) v = content h v"
  by (cases v) (simp_all add: content_def cell_append)

lemma cell_update_other: "b \<noteq> a \<Longrightarrow> cell (h[a := xs]) b = cell h b"
  by (simp add: cell_def)

lemma set_update_subset: "set (AList.update k v al) \<subseteq> insert (k, v) (set al)"
  by (induction al) auto

lemma set_delete_subset: "set (AList.delete k al) \<subseteq> set al"
  by (induction al) auto

lemma from_db_fresh: "from_db j h = (v, h') \<Longrightarrow> a < length h \<Longrightarrow> v \<noteq> ListObj a"
  by (cases j) (auto simp: from_db_def alloc_def)

lemma clean_value_fresh: "clean_value v h = (v', h') \<Longrightarrow> a < length h \<Longrightarrow> v' \<noteq> ListObj a"
  unfolding clean_value_def by (rule from_db_fresh)

section \<open>Reading extras of an unstored node\<close>

text \<open>
  C10. For an unstored node the extras readers do not look at the extras rows at all
  (whatever rows \<open>x\<close> the database may hold for it) and never raise
  \<open>ModificationNotAllowed\<close>: \<open>get_extras\<close> is the empty mapping, \<open>iterextras\<close>
  yields nothing, \<open>get_extra\<close> raises \<open>AttributeError\<close> without a default and returns
  the default when one is given.
\<close>

theorem unstored_extras_reads:
  assumes "to_be_stored n"
  shows "get_extras (n\<lparr>db_extras := x\<rparr>) = []
       \<and> iterextras (n\<lparr>db_extras := x\<rparr>) = []
       \<and> get_extra key [] (n\<lparr>db_extras := x\<rparr>) = Inl AttributeError
       \<and> get_extra key [d] (n\<lparr>db_extras := x\<rparr>) = Inr d
       \<and> get_extra key args (n\<lparr>db_extras := x\<rparr>) \<noteq> Inl ModificationNotAllowed"
  using assms
  by (auto simp: get_extras_def iterextras_def get_extra_def is_stored_def
           split: list.splits sum.splits error.splits)

theorem unstored_extras_reads_witness:
  "to_be_stored (init_node ''Data'' True 0)
   \<and> get_extras ((init_node ''Data'' True 0)\<lparr>db_extras := [(''a'', JStr ''b'')]\<rparr>) = []
   \<and> iterextras ((init_node ''Data'' True 0)\<lparr>db_extras := [(''a'', JStr ''b'')]\<rparr>) = []
   \<and> get_extra ''a'' [] ((init_node ''Data'' True 0)\<lparr>db_extras := [(''a'', JStr ''b'')]\<rparr>)
       = Inl AttributeError
   \<and> get_extra ''a'' [JStr ''def''] ((init_node ''Data'' True 0)\<lparr>db_extras := [(''a'', JStr ''b'')]\<rparr>)
       = Inr (JStr ''def'')"
proof -
  have u: "to_be_stored (init_node ''Data'' True 0)" by (simp add: init_node_def)
  from unstored_extras_reads [OF u, of "[(''a'', JStr ''b'')]" "''a''" "JStr ''def''" "[]"] u
  show ?thesis by blast
qed

section \<open>Attributes of a stored node\<close>

text \<open>
  C7. On a stored node, setting and deleting an attribute fail with
  \<open>ModificationNotAllowed\<close> and leave the world, hence the attribute mapping,
  unchanged. The base class applies the check to every key; the allow-list of updatable
  keys is honoured by the sealable mixin, outside these sources. With
  \<open>stored_check=False\<close> the same calls succeed: setting a valid key stores the cleaned
  value, deleting an existing key removes it.
\<close>

theorem stored_attributes_immutable:
  assumes "is_stored (objs w self)"
  shows "set_attr e key v clean True self w = (Inl ModificationNotAllowed, w)
       \<and> del_attr key True self w = (Inl ModificationNotAllowed, w)
       \<and> (attribute_sep e \<notin> set key \<longrightarrow>
            fst (set_attr e key v clean False self w) = Inr ()
          \<and> map_of (get_attrs self (snd (set_attr e key v clean False self w))) key
              = Some (clean_json (content (heap w) v)))
       \<and> (map_of (get_attrs self w) key \<noteq> None \<longrightarrow>
            fst (del_attr key False self w) = Inr ()
          \<and> map_of (get_attrs self (snd (del_attr key False self w))) key = None)"
proof -
  have st: "\<not> to_be_stored (objs w self)" using assms by (simp add: is_stored_def)
  have a: "set_attr e key v clean True self w = (Inl ModificationNotAllowed, w)"
    using assms by (simp add: set_attr_def)
  have b: "del_attr key True self w = (Inl ModificationNotAllowed, w)"
    using assms by (simp add: del_attr_def)
  have c: "fst (set_attr e key v clean False self w) = Inr ()
          \<and> map_of (get_attrs self (snd (set_attr e key v clean False self w))) key
              = Some (clean_json (content (heap w) v))" if k: "attribute_sep e \<notin> set key"
  proof -
    obtain v' h' where cv: "clean_value v (heap w) = (v', h')" by (cases "clean_value v (heap w)")
    from clean_value_content [OF cv] show ?thesis
      using st k cv
      by (simp add: set_attr_def validate_attribute_key_def set_db_attr_def put_node_def
          get_attrs_def iterattrs_def update_conv' Let_def)
  qed
  have d: "fst (del_attr key False self w) = Inr ()
          \<and> map_of (get_attrs self (snd (del_attr key False self w))) key = None"
    if k: "map_of (get_attrs self w) key \<noteq> None"
    using st k
    by (auto simp: del_attr_def del_db_attr_def put_node_def get_attrs_def iterattrs_def
        delete_conv' Let_def split: option.splits)
  from a b c d show ?thesis by blast
qed

theorem stored_attributes_immutable_witness:
  "is_stored (objs stored_example 0)
   \<and> set_attr test_env ''integer'' (Imm (JInt 123)) True True 0 stored_example
       = (Inl ModificationNotAllowed, stored_example)
   \<and> del_attr ''bool'' True 0 stored_example = (Inl ModificationNotAllowed, stored_example)
   \<and> fst (set_attr test_env ''integer'' (Imm (JInt 123)) True False 0 stored_example) = Inr ()
   \<and> fst (del_attr ''bool'' False 0 stored_example) = Inr ()"
proof -
  have s: "is_stored (objs stored_example 0)"
    by (simp add: stored_example_def put_node_def init_node_def is_stored_def)
  have k: "attribute_sep test_env \<notin> set ''integer''" by (simp add: test_env_def)
  have p: "map_of (get_attrs 0 stored_example) ''bool'' \<noteq> None"
    by (simp add: stored_example_def put_node_def init_node_def get_attrs_def iterattrs_def)
  from stored_attributes_immutable [OF s, of test_env "''integer''" "Imm (JInt 123)" True]
    stored_attributes_immutable [OF s, of test_env "''bool''" "Imm (JInt 123)" True] s k p
  show ?thesis by blast
qed

section \<open>Hash exclusion\<close>
























section \<open>Appending to a list attribute\<close>

lemma set_attr_keeps:
  assumes "unaliased a self w" and "set_attr e key v True chk self w = (r, w')"
  shows "unaliased a self w' \<and> cell (heap w') a = cell (heap w) a"
proof -
  obtain v' h' where cv: "clean_value v (heap w) = (v', h')" by (cases "clean_value v (heap w)")
  then obtain ys where ys: "h' = heap w @ ys" using clean_value_heap by blast
  have fr: "v' \<noteq> ListObj a" using clean_value_fresh [OF cv] assms(1) by (simp add: unaliased_def)
  have al: "\<forall>(k, x) \<in> set (AList.update key v' (attrs_cache (objs w self))). x \<noteq> ListObj a"
    using set_update_subset [of key v' "attrs_cache (objs w self)"] fr assms(1)
    by (auto simp: unaliased_def)
  from assms cv ys al show ?thesis
    by (auto simp: set_attr_def set_db_attr_def unaliased_def put_node_def Let_def cell_append
        split: if_splits sum.splits)
qed

lemma del_attr_keeps:
  assumes "unaliased a self w" and "del_attr key chk self w = (r, w')"
  shows "unaliased a self w' \<and> cell (heap w') a = cell (heap w) a"
proof -
  have al: "\<forall>(k, x) \<in> set (AList.delete key (attrs_cache (objs w self))). x \<noteq> ListObj a"
    using set_delete_subset [of key "attrs_cache (objs w self)"] assms(1)
    by (auto simp: unaliased_def)
  from assms al show ?thesis
    by (auto simp: del_attr_def del_db_attr_def unaliased_def put_node_def Let_def
        split: if_splits option.splits)
qed

lemma get_attr_keeps:
  assumes "unaliased a self w" and "get_attr key None self w = (r, w')"
  shows "unaliased a self w' \<and> cell (heap w') a = cell (heap w) a \<and> r \<noteq> Inr (ListObj a)
       \<and> objs w' = objs w"
proof (cases "to_be_stored (objs w self)")
  case True
  with assms show ?thesis
    by (auto simp: get_attr_def unaliased_def Let_def split: option.splits dest!: map_of_SomeD)
next
  case False
  show ?thesis
  proof (cases "map_of (db_attrs (objs w self)) key")
    case None
    with False assms show ?thesis
      by (auto simp: get_attr_def get_db_attr_def unaliased_def Let_def)
  next
    case (Some j)
    obtain v h' where fd: "from_db j (heap w) = (v, h')" by (cases "from_db j (heap w)")
    then obtain ys where ys: "h' = heap w @ ys" using from_db_heap by blast
    have fr: "v \<noteq> ListObj a" using from_db_fresh [OF fd] assms(1) by (simp add: unaliased_def)
    from False Some fd assms ys fr show ?thesis
      by (auto simp: get_attr_def get_db_attr_def unaliased_def Let_def cell_append)
  qed
qed

lemma set_attr_raw_keeps:
  assumes "unaliased a self w" and "b \<noteq> a" and "set_attr e key (ListObj b) False chk self w = (r, w')"
  shows "unaliased a self w' \<and> cell (heap w') a = cell (heap w) a"
proof -
  obtain v' h' where cv: "clean_value (ListObj b) (heap w) = (v', h')"
    by (cases "clean_value (ListObj b) (heap w)")
  then obtain ys where ys: "h' = heap w @ ys" using clean_value_heap by blast
  have al: "\<forall>(k, x) \<in> set (AList.update key (ListObj b) (attrs_cache (objs w self))). x \<noteq> ListObj a"
    using set_update_subset [of key "ListObj b" "attrs_cache (objs w self)"] assms(1,2)
    by (auto simp: unaliased_def)
  from assms cv ys al show ?thesis
    by (auto simp: set_attr_def set_db_attr_def unaliased_def put_node_def Let_def cell_append
        split: if_splits sum.splits)
qed

lemma unaliased_heap:
  assumes "unaliased a self w" and "length h = length (heap w) + n"
  shows "unaliased a self (w\<lparr>heap := h\<rparr>)"
  using assms by (simp add: unaliased_def)

lemma append_tail_keeps:
  assumes i1: "unaliased a self w1" and ba: "b \<noteq> a"
    and run: "(let (x, h2) = (if clean then clean_value v (heap w1) else (v, heap w1))
               in case list_append (ListObj b) (content h2 x) h2 of
                    Inl err \<Rightarrow> (Inl err, w1\<lparr>heap := h2\<rparr>)
                  | Inr h3 \<Rightarrow> set_attr e key (ListObj b) False True self (w1\<lparr>heap := h3\<rparr>)) = (r, w')"
  shows "unaliased a self w' \<and> cell (heap w') a = cell (heap w1) a"
proof -
  obtain x h2 where xh: "(if clean then clean_value v (heap w1) else (v, heap w1)) = (x, h2)"
    by (cases "(if clean then clean_value v (heap w1) else (v, heap w1))")
  then obtain ys where ys: "h2 = heap w1 @ ys"
    using clean_value_heap [of v "heap w1" x h2] by (auto split: if_splits)
  define h3 where "h3 = h2[b := cell h2 b @ [content h2 x]]"
  have i3: "unaliased a self (w1\<lparr>heap := h3\<rparr>)"
    using i1 ys by (simp add: unaliased_def h3_def)
  have c3: "cell (heap (w1\<lparr>heap := h3\<rparr>)) a = cell (heap w1) a"
    using i1 ys ba by (simp add: h3_def cell_update_other cell_append unaliased_def)
  from run xh
  have "set_attr e key (ListObj b) False True self (w1\<lparr>heap := h3\<rparr>) = (r, w')"
    by (simp add: list_append_def h3_def)
  from set_attr_raw_keeps [OF i3 ba this] c3 show ?thesis by simp
qed

lemma append_to_attr_keeps:
  assumes inv: "unaliased a self w" and run: "append_to_attr e key v clean self w = (r, w')"
  shows "unaliased a self w' \<and> cell (heap w') a = cell (heap w) a"
proof (cases "validate_attribute_key e key")
  case (Inl err)
  with run inv show ?thesis by (simp add: append_to_attr_def)
next
  case valid: (Inr u)
  obtain g wg where g: "get_attr key None self w = (g, wg)" by (cases "get_attr key None self w")
  from get_attr_keeps [OF inv g]
  have ig: "unaliased a self wg" and cg: "cell (heap wg) a = cell (heap w) a"
    and ng: "g \<noteq> Inr (ListObj a)" by auto
  show ?thesis
  proof (cases g)
    case (Inl x)
    let ?w1 = "wg\<lparr>heap := heap wg @ [[]]\<rparr>"
    have i1: "unaliased a self ?w1" and c1: "cell (heap ?w1) a = cell (heap w) a"
      and ba: "length (heap wg) \<noteq> a"
      using ig cg by (auto simp: unaliased_def cell_append)
    from run valid g Inl
    have "(let (x, h2) = (if clean then clean_value v (heap ?w1) else (v, heap ?w1))
               in case list_append (ListObj (length (heap wg))) (content h2 x) h2 of
                    Inl err \<Rightarrow> (Inl err, ?w1\<lparr>heap := h2\<rparr>)
                  | Inr h3 \<Rightarrow> set_attr e key (ListObj (length (heap wg))) False True self (?w1\<lparr>heap := h3\<rparr>))
          = (r, w')"
      by (simp add: append_to_attr_def alloc_def)
    from append_tail_keeps [OF i1 ba this] c1 show ?thesis by simp
  next
    case (Inr val)
    show ?thesis
    proof (cases val)
      case (Imm j)
      with run valid g Inr ig cg show ?thesis by (simp add: append_to_attr_def)
    next
      case (ListObj b)
      with ng Inr have ba: "b \<noteq> a" by simp
      from run valid g Inr ListObj
      have "(let (x, h2) = (if clean then clean_value v (heap wg) else (v, heap wg))
               in case list_append (ListObj b) (content h2 x) h2 of
                    Inl err \<Rightarrow> (Inl err, wg\<lparr>heap := h2\<rparr>)
                  | Inr h3 \<Rightarrow> set_attr e key (ListObj b) False True self (wg\<lparr>heap := h3\<rparr>))
          = (r, w')"
        by (simp add: append_to_attr_def)
      from append_tail_keeps [OF ig ba this] cg show ?thesis by simp
    qed
  qed
qed

lemma run_ops_keeps:
  "unaliased a self w \<Longrightarrow>
     unaliased a self (run_ops e ops self w) \<and> cell (heap (run_ops e ops self w)) a = cell (heap w) a"
proof (induction ops arbitrary: w)
  case Nil
  then show ?case by simp
next
  case (Cons op ops)
  show ?case
  proof (cases op)
    case (SetAttr key val)
    from set_attr_keeps [OF Cons.prems, of e key val True "fst (set_attr e key val True True self w)"
        "snd (set_attr e key val True True self w)"]
    have "unaliased a self (snd (set_attr e key val True True self w))"
      and "cell (heap (snd (set_attr e key val True True self w))) a = cell (heap w) a" by auto
    with Cons.IH [of "snd (set_attr e key val True True self w)"] SetAttr show ?thesis by simp
  next
    case (AppendToAttr key val clean)
    from append_to_attr_keeps [OF Cons.prems, of e key val clean
        "fst (append_to_attr e key val clean self w)" "snd (append_to_attr e key val clean self w)"]
    have "unaliased a self (snd (append_to_attr e key val clean self w))"
      and "cell (heap (snd (append_to_attr e key val clean self w))) a = cell (heap w) a" by auto
    with Cons.IH [of "snd (append_to_attr e key val clean self w)"] AppendToAttr show ?thesis by simp
  next
    case (DelAttr key)
    from del_attr_keeps [OF Cons.prems, of key True "fst (del_attr key True self w)"
        "snd (del_attr key True self w)"]
    have "unaliased a self (snd (del_attr key True self w))"
      and "cell (heap (snd (del_attr key True self w))) a = cell (heap w) a" by auto
    with Cons.IH [of "snd (del_attr key True self w)"] DelAttr show ?thesis by simp
  qed
qed

lemma map_of_content:
  "map_of (map (\<lambda>(k, v). (k, f v)) al) k = map_option f (map_of al k)"
  by (induction al) auto

lemma append_to_absent:
  assumes unst: "to_be_stored (objs w self)" and valid: "attribute_sep e \<notin> set key"
    and absent: "map_of (attrs_cache (objs w self)) key = None"
    and vok: "case v of ListObj b \<Rightarrow> b < length (heap w) | Imm j \<Rightarrow> True"
  shows "fst (append_to_attr e key v clean self w) = Inr ()
       \<and> map_of (get_attrs self (snd (append_to_attr e key v clean self w))) key
           = Some (JSeq [if clean then clean_json (content (heap w) v) else content (heap w) v])"
proof -
  let ?h = "heap w"
  let ?h1 = "?h @ [[]]"
  let ?a = "length ?h"
  have c1: "content ?h1 v = content ?h v" using vok by (rule content_append)
  obtain x h2 where xh: "(if clean then clean_value v ?h1 else (v, ?h1)) = (x, h2)"
    by (cases "(if clean then clean_value v ?h1 else (v, ?h1))")
  then obtain ys where ys: "h2 = ?h1 @ ys"
    using clean_value_heap [of v ?h1 x h2] by (auto split: if_splits)
  have cx: "content h2 x = (if clean then clean_json (content ?h v) else content ?h v)"
  proof (cases clean)
    case True
    with xh have "clean_value v ?h1 = (x, h2)" by simp
    from clean_value_content [OF this] c1 True show ?thesis by simp
  next
    case False
    with xh c1 show ?thesis by simp
  qed
  have ca: "cell h2 ?a = []" by (simp add: ys cell_def nth_append)
  have la: "?a < length h2" by (simp add: ys)
  define h3 where "h3 = h2[?a := cell h2 ?a @ [content h2 x]]"
  have c3: "cell h3 ?a = [content h2 x]" using la ca by (simp add: h3_def cell_def)
  have run: "append_to_attr e key v clean self w =
      (Inr (), put_node self ((objs w self)\<lparr>attrs_cache := AList.update key (ListObj ?a) (attrs_cache (objs w self))\<rparr>)
                 (w\<lparr>heap := h3\<rparr>))"
    using unst valid absent xh
    by (cases clean)
       (simp_all add: append_to_attr_def validate_attribute_key_def get_attr_def alloc_def
          list_append_def set_attr_def is_stored_def put_node_def h3_def Let_def)
  show ?thesis
    using unst c3 cx
    by (simp add: run get_attrs_def iterattrs_def put_node_def map_of_content update_conv' content_def)
qed

lemma append_to_non_list:
  assumes unst: "to_be_stored (objs w self)" and valid: "attribute_sep e \<notin> set key"
    and cur: "map_of (attrs_cache (objs w self)) key = Some (Imm j)"
  shows "append_to_attr e key v clean self w = (Inl AttributeError, w)"
  using assms
  by (simp add: append_to_attr_def validate_attribute_key_def get_attr_def)

text \<open>
  C9. On an unstored node and for a valid key: appending to an absent key initialises
  the attribute to a list holding just the appended value (the cleaned value when
  cleaning is on); appending to a key whose value is not a list fails with
  \<open>AttributeError\<close> and changes nothing; and a list object held by the caller is
  never mutated by any program of \<open>_set_attr\<close> calls with cleaning on (the default),
  \<open>_append_to_attr\<close> calls and \<open>_del_attr\<close> calls, also when it is passed as the
  base value of an attribute: the node works on the copy made by cleaning.
\<close>

theorem append_to_attr_behaviour:
  assumes unst: "to_be_stored (objs w self)" and valid: "attribute_sep e \<notin> set key"
  shows "(map_of (attrs_cache (objs w self)) key = None
          \<and> (case v of ListObj b \<Rightarrow> b < length (heap w) | Imm j \<Rightarrow> True) \<longrightarrow>
            fst (append_to_attr e key v clean self w) = Inr ()
          \<and> map_of (get_attrs self (snd (append_to_attr e key v clean self w))) key
              = Some (JSeq [if clean then clean_json (content (heap w) v) else content (heap w) v]))
       \<and> (map_of (attrs_cache (objs w self)) key = Some (Imm j) \<longrightarrow>
            append_to_attr e key v clean self w = (Inl AttributeError, w))
       \<and> (unaliased a self w \<longrightarrow>
            cell (heap (run_ops e ops self w)) a = cell (heap w) a)"
  using append_to_absent [OF unst valid, of v clean] append_to_non_list [OF unst valid, of j v clean]
    run_ops_keeps [of a self w e ops]
  by blast

text \<open>
  The claim as stated, for any set-then-append sequence, fails when the base list is
  set with \<open>clean=False\<close>: the cache then holds the caller's list itself, and the
  append of 4 turns the caller's \<open>[1, 2, 3]\<close> into \<open>[1, 2, 3, 4]\<close>.
\<close>

theorem append_mutates_raw_base_list:
  "fst (set_attr test_env ''list'' (ListObj 0) False True 0 list_example) = Inr ()
   \<and> fst (append_to_attr test_env ''list'' (Imm (JInt 4)) True 0
            (snd (set_attr test_env ''list'' (ListObj 0) False True 0 list_example))) = Inr ()
   \<and> cell (heap list_example) 0 = [JInt 1, JInt 2, JInt 3]
   \<and> cell (heap (snd (append_to_attr test_env ''list'' (Imm (JInt 4)) True 0
            (snd (set_attr test_env ''list'' (ListObj 0) False True 0 list_example))))) 0
       = [JInt 1, JInt 2, JInt 3, JInt 4]"
  by (simp add: set_attr_def append_to_attr_def get_attr_def list_append_def alloc_def
      list_example_def put_node_def init_node_def is_stored_def empty_world_def cell_def
      validate_attribute_key_def test_env_def clean_value_def from_db_def content_def Let_def)

theorem append_to_attr_behaviour_witness:
  "to_be_stored (objs list_example 0) \<and> attribute_sep test_env \<notin> set ''list''
   \<and> fst (append_to_attr test_env ''list'' (Imm (JInt 0)) True 0 list_example) = Inr ()
   \<and> map_of (get_attrs 0 (snd (append_to_attr test_env ''list'' (Imm (JInt 0)) True 0 list_example))) ''list''
       = Some (JSeq [JInt 0])
   \<and> append_to_attr test_env ''list'' (Imm (JInt 4)) True 0
        (snd (set_attr test_env ''list'' (Imm (JInt 7)) True True 0 list_example))
       = (Inl AttributeError, snd (set_attr test_env ''list'' (Imm (JInt 7)) True True 0 list_example))
   \<and> cell (heap (run_ops test_env
         [SetAttr ''list'' (ListObj 0), AppendToAttr ''list'' (Imm (JInt 4)) True] 0 list_example)) 0
       = [JInt 1, JInt 2, JInt 3]
   \<and> map_of (get_attrs 0 (run_ops test_env
         [SetAttr ''list'' (ListObj 0), AppendToAttr ''list'' (Imm (JInt 4)) True] 0 list_example)) ''list''
       = Some (JSeq [JInt 1, JInt 2, JInt 3, JInt 4])"
proof -
  let ?w = list_example
  let ?w7 = "snd (set_attr test_env ''list'' (Imm (JInt 7)) True True 0 list_example)"
  have u: "to_be_stored (objs ?w 0)" by (simp add: list_example_def put_node_def init_node_def)
  have k: "attribute_sep test_env \<notin> set ''list''" by (simp add: test_env_def)
  have ab: "map_of (attrs_cache (objs ?w 0)) ''list'' = None
          \<and> (case Imm (JInt 0) of ListObj b \<Rightarrow> b < length (heap ?w) | Imm j \<Rightarrow> True)"
    by (simp add: list_example_def put_node_def init_node_def)
  have w7: "?w7 = put_node 0 ((objs ?w 0)\<lparr>attrs_cache := [(''list'', Imm (JInt 7))]\<rparr>) ?w"
    by (simp add: set_attr_def list_example_def put_node_def init_node_def is_stored_def
        empty_world_def validate_attribute_key_def test_env_def clean_value_def from_db_def
        content_def Let_def)
  have u7: "to_be_stored (objs ?w7 0)" using u by (simp add: w7 put_node_def)
  have c7: "map_of (attrs_cache (objs ?w7 0)) ''list'' = Some (Imm (JInt 7))"
    by (simp add: w7 put_node_def)
  have ua: "unaliased 0 0 ?w"
    by (simp add: unaliased_def list_example_def put_node_def init_node_def empty_world_def)
  have g: "map_of (get_attrs 0 (run_ops test_env
         [SetAttr ''list'' (ListObj 0), AppendToAttr ''list'' (Imm (JInt 4)) True] 0 ?w)) ''list''
       = Some (JSeq [JInt 1, JInt 2, JInt 3, JInt 4])"
    by (simp add: set_attr_def append_to_attr_def get_attr_def list_append_def alloc_def
      get_attrs_def iterattrs_def
      list_example_def put_node_def init_node_def is_stored_def empty_world_def cell_def
      validate_attribute_key_def test_env_def clean_value_def from_db_def content_def Let_def)
  from append_to_attr_behaviour [OF u k, of "Imm (JInt 0)" True _ 0
      "[SetAttr ''list'' (ListObj 0), AppendToAttr ''list'' (Imm (JInt 4)) True]"] ab ua
  have 1: "fst (append_to_attr test_env ''list'' (Imm (JInt 0)) True 0 ?w) = Inr ()"
    and 2: "map_of (get_attrs 0 (snd (append_to_attr test_env ''list'' (Imm (JInt 0)) True 0 ?w))) ''list''
       = Some (JSeq [JInt 0])"
    and 3: "cell (heap (run_ops test_env
         [SetAttr ''list'' (ListObj 0), AppendToAttr ''list'' (Imm (JInt 4)) True] 0 ?w)) 0
       = [JInt 1, JInt 2, JInt 3]"
    by (simp_all add: content_def list_example_def put_node_def empty_world_def cell_def)
  from append_to_attr_behaviour [OF u7 k, of "Imm (JInt 4)" True "JInt 7" 0 "[]"] c7
  have 4: "append_to_attr test_env ''list'' (Imm (JInt 4)) True 0 ?w7 = (Inl AttributeError, ?w7)"
    by blast
  from u k 1 2 3 4 g show ?thesis by blast
qed

section \<open>Deleting a workflow\<close>

lemma deleted_t0_nodes:
  "db_nodes (delete_nodes True True [2] calls_n_returns_graph) = [0, 1]"
  by code_simp

lemma deleted_t0_loads:
  "load_all [0, 1, 2, 3, 4, 5, 6, 7, 8] (delete_nodes True True [2] calls_n_returns_graph)
     = [Inr 0, Inr 1, Inl NotExistent, Inl NotExistent, Inl NotExistent, Inl NotExistent, Inl NotExistent, Inl NotExistent, Inl NotExistent]"
  by code_simp

lemma deleted_t1_nodes:
  "db_nodes (delete_nodes False False [2] calls_n_returns_graph) = [0, 1, 3, 4, 5, 6, 8]"
  by code_simp

lemma deleted_t1_loads:
  "load_all [0, 1, 2, 3, 4, 5, 6, 7, 8] (delete_nodes False False [2] calls_n_returns_graph)
     = [Inr 0, Inr 1, Inl NotExistent, Inr 3, Inr 4, Inr 5, Inr 6, Inl NotExistent, Inr 8]"
  by code_simp

lemma deleted_t2_nodes:
  "db_nodes (delete_nodes False True [2] calls_n_returns_graph) = [0, 1, 3, 4, 6]"
  by code_simp

lemma deleted_t2_loads:
  "load_all [0, 1, 2, 3, 4, 5, 6, 7, 8] (delete_nodes False True [2] calls_n_returns_graph)
     = [Inr 0, Inr 1, Inl NotExistent, Inr 3, Inr 4, Inl NotExistent, Inr 6, Inl NotExistent, Inl NotExistent]"
  by code_simp

lemma deleted_s0_nodes:
  "db_nodes (delete_nodes True True [2] (with_second_input calls_n_returns_graph)) = [0, 1]"
  by code_simp

lemma deleted_s0_loads:
  "load_all [0, 1, 2, 3, 4, 5, 6, 7, 8] (delete_nodes True True [2] (with_second_input calls_n_returns_graph))
     = [Inr 0, Inr 1, Inl NotExistent, Inl NotExistent, Inl NotExistent, Inl NotExistent, Inl NotExistent, Inl NotExistent, Inl NotExistent]"
  by code_simp

lemma deleted_s1_nodes:
  "db_nodes (delete_nodes False False [2] (with_second_input calls_n_returns_graph)) = [0, 1, 3, 4, 5, 6, 8]"
  by code_simp

lemma deleted_s1_loads:
  "load_all [0, 1, 2, 3, 4, 5, 6, 7, 8] (delete_nodes False False [2] (with_second_input calls_n_returns_graph))
     = [Inr 0, Inr 1, Inl NotExistent, Inr 3, Inr 4, Inr 5, Inr 6, Inl NotExistent, Inr 8]"
  by code_simp

lemma deleted_s2_nodes:
  "db_nodes (delete_nodes False True [2] (with_second_input calls_n_returns_graph)) = [0, 1, 3, 4, 6]"
  by code_simp

lemma deleted_s2_loads:
  "load_all [0, 1, 2, 3, 4, 5, 6, 7, 8] (delete_nodes False True [2] (with_second_input calls_n_returns_graph))
     = [Inr 0, Inr 1, Inl NotExistent, Inr 3, Inr 4, Inl NotExistent, Inr 6, Inl NotExistent, Inl NotExistent]"
  by code_simp

text \<open>
  C4. In the workflow graph of the deletion tests (\<open>in1 = 0\<close>, \<open>in2 = 1\<close>, \<open>wf = 2\<close>,
  \<open>slave1 = 3\<close>, \<open>outp1 = 4\<close>, \<open>outp2 = 5\<close>, \<open>slave2 = 6\<close>, \<open>outp3 = 7\<close>,
  \<open>outp4 = 8\<close>), both as the test builds it and with \<open>in2\<close> as a second input of the
  workflow: deleting the workflow with calls and returns followed removes exactly the
  workflow, both slaves and the four outputs and keeps the two inputs; with neither
  followed it removes exactly the workflow and \<open>outp3\<close>; with returns only it removes
  exactly the workflow, \<open>outp3\<close>, \<open>outp2\<close> and \<open>outp4\<close>. Loading a removed node
  fails with \<open>NotExistent\<close>, loading a kept node succeeds.
\<close>

theorem deletion_closure_of_workflow:
  "db_nodes (delete_nodes True True [2] calls_n_returns_graph) = [0, 1]
   \<and> load_all [0, 1, 2, 3, 4, 5, 6, 7, 8] (delete_nodes True True [2] calls_n_returns_graph)
     = [Inr 0, Inr 1, Inl NotExistent, Inl NotExistent, Inl NotExistent, Inl NotExistent, Inl NotExistent, Inl NotExistent, Inl NotExistent]
   \<and> db_nodes (delete_nodes False False [2] calls_n_returns_graph) = [0, 1, 3, 4, 5, 6, 8]
   \<and> load_all [0, 1, 2, 3, 4, 5, 6, 7, 8] (delete_nodes False False [2] calls_n_returns_graph)
     = [Inr 0, Inr 1, Inl NotExistent, Inr 3, Inr 4, Inr 5, Inr 6, Inl NotExistent, Inr 8]
   \<and> db_nodes (delete_nodes False True [2] calls_n_returns_graph) = [0, 1, 3, 4, 6]
   \<and> load_all [0, 1, 2, 3, 4, 5, 6, 7, 8] (delete_nodes False True [2] calls_n_returns_graph)
     = [Inr 0, Inr 1, Inl NotExistent, Inr 3, Inr 4, Inl NotExistent, Inr 6, Inl NotExistent, Inl NotExistent]
   \<and> db_nodes (delete_nodes True True [2] (with_second_input calls_n_returns_graph)) = [0, 1]
   \<and> load_all [0, 1, 2, 3, 4, 5, 6, 7, 8] (delete_nodes True True [2] (with_second_input calls_n_returns_graph))
     = [Inr 0, Inr 1, Inl NotExistent, Inl NotExistent, Inl NotExistent, Inl NotExistent, Inl NotExistent, Inl NotExistent, Inl NotExistent]
   \<and> db_nodes (delete_nodes False False [2] (with_second_input calls_n_returns_graph)) = [0, 1, 3, 4, 5, 6, 8]
   \<and> load_all [0, 1, 2, 3, 4, 5, 6, 7, 8] (delete_nodes False False [2] (with_second_input calls_n_returns_graph))
     = [Inr 0, Inr 1, Inl NotExistent, Inr 3, Inr 4, Inr 5, Inr 6, Inl NotExistent, Inr 8]
   \<and> db_nodes (delete_nodes False True [2] (with_second_input calls_n_returns_graph)) = [0, 1, 3, 4, 6]
   \<and> load_all [0, 1, 2, 3, 4, 5, 6, 7, 8] (delete_nodes False True [2] (with_second_input calls_n_returns_graph))
     = [Inr 0, Inr 1, Inl NotExistent, Inr 3, Inr 4, Inl NotExistent, Inr 6, Inl NotExistent, Inl NotExistent]"
  using deleted_t0_nodes deleted_t0_loads deleted_t1_nodes deleted_t1_loads deleted_t2_nodes deleted_t2_loads
    deleted_s0_nodes deleted_s0_loads deleted_s1_nodes deleted_s1_loads deleted_s2_nodes deleted_s2_loads
  by blast

section \<open>Links: cycles\<close>

lemma reachable_rtrancl: "reachable es a b \<longleftrightarrow> (a, b) \<in> (set es)\<^sup>*"
  by (auto simp: reachable_def rtrancl_eq_or_trancl)

lemma chain_reachable:
  assumes "(a, b) \<in> set es" "(b, c) \<in> set es" "(c, d) \<in> set es"
  shows "reachable es a d"
proof -
  have "(a, d) \<in> (set es)\<^sup>+" using assms by (meson trancl.intros)
  then show ?thesis by (simp add: reachable_def)
qed

lemma cycle_rejected:
  assumes lt: "lt \<in> set (provenance_types e)"
    and ch: "(a, b) \<in> set (stored_edges e w)" "(b, c) \<in> set (stored_edges e w)"
            "(c, d) \<in> set (stored_edges e w)"
  shows "add_incoming e d lt lbl a w = (Inl ValueError, w)"
proof -
  have "reachable (provenance_edges e w) a d"
    using ch by (intro chain_reachable [of a b _ c d]) (simp_all add: provenance_edges_def)
  with lt show ?thesis
    by (simp add: add_incoming_def validate_incoming_def validate_link_def)
qed

lemma set_cached_all:
  "set (concat (map (cached_edges_of e w) [0..<n]))
     = {(s, t). t < n \<and> (\<exists>ty l. (s, ty, l) \<in> set (incoming_cache (objs w t)) \<and> ty \<in> set (provenance_types e))}"
  by (force simp: cached_edges_of_def)

lemma edges_after_dblink:
  "set (provenance_edges e (w\<lparr>db_links := db_links w @ [(src, lt, lbl, self)]\<rparr>))
     = (if lt \<in> set (provenance_types e) then insert (src, self) (set (provenance_edges e w))
        else set (provenance_edges e w))"
  by (auto simp: provenance_edges_def stored_edges_def cached_edges_of_def)

lemma edges_after_cachelink:
  assumes "self < next_ref w"
  shows "set (provenance_edges e
            (put_node self ((objs w self)\<lparr>incoming_cache := incoming_cache (objs w self) @ [(src, lt, lbl)]\<rparr>) w))
     = (if lt \<in> set (provenance_types e) then insert (src, self) (set (provenance_edges e w))
        else set (provenance_edges e w))"
  using assms
  unfolding provenance_edges_def set_append set_cached_all
  by (auto simp: stored_edges_def put_node_def split: if_splits)

lemma add_incoming_cases:
  "add_incoming e src lt lbl self w = (r, w') \<Longrightarrow>
     w' = w
   \<or> (validate_link e src self lt lbl w = Inr ()
      \<and> (w' = w\<lparr>db_links := db_links w @ [(src, lt, lbl, self)]\<rparr>
         \<or> w' = put_node self ((objs w self)\<lparr>incoming_cache := incoming_cache (objs w self) @ [(src, lt, lbl)]\<rparr>) w))"
  by (auto simp: add_incoming_def validate_incoming_def validate_outgoing_def add_dblink_from_def
      add_cachelink_from_def Let_def split: sum.splits if_splits)

lemma add_incoming_acyclic:
  assumes ac: "acyclic (set (provenance_edges e w))" and al: "self < next_ref w"
  shows "acyclic (set (provenance_edges e (snd (add_incoming e src lt lbl self w))))"
proof -
  obtain r w' where run: "add_incoming e src lt lbl self w = (r, w')"
    by (cases "add_incoming e src lt lbl self w")
  from add_incoming_cases [OF run]
  consider (same) "w' = w"
    | (db) "validate_link e src self lt lbl w = Inr ()"
           "w' = w\<lparr>db_links := db_links w @ [(src, lt, lbl, self)]\<rparr>"
    | (cache) "validate_link e src self lt lbl w = Inr ()"
           "w' = put_node self ((objs w self)\<lparr>incoming_cache := incoming_cache (objs w self) @ [(src, lt, lbl)]\<rparr>) w"
    by blast
  then show ?thesis
  proof cases
    case same
    with ac run show ?thesis by simp
  next
    case db
    have "lt \<in> set (provenance_types e) \<Longrightarrow> (self, src) \<notin> (set (provenance_edges e w))\<^sup>*"
      using db(1) by (auto simp: validate_link_def reachable_rtrancl split: if_splits)
    with ac run db(2) show ?thesis by (simp add: edges_after_dblink)
  next
    case cache
    have "lt \<in> set (provenance_types e) \<Longrightarrow> (self, src) \<notin> (set (provenance_edges e w))\<^sup>*"
      using cache(1) by (auto simp: validate_link_def reachable_rtrancl split: if_splits)
    with ac run cache(2) al show ?thesis by (simp add: edges_after_cachelink)
  qed
qed

text \<open>
  C5. Given a chain \<open>a \<rightarrow> b \<rightarrow> c \<rightarrow> d\<close> of stored links of provenance-tracking types,
  adding a link of such a type from \<open>d\<close> to \<open>a\<close> fails with \<open>ValueError\<close> and leaves the
  world, hence every existing link, unchanged. And whatever \<open>add_incoming\<close> is called
  with on an allocated node, the graph of the stored and cached provenance links is
  acyclic after the call if it was before.
\<close>

theorem provenance_graph_stays_acyclic:
  "(lt \<in> set (provenance_types e)
      \<and> (a, b) \<in> set (stored_edges e w) \<and> (b, c) \<in> set (stored_edges e w)
      \<and> (c, d) \<in> set (stored_edges e w) \<longrightarrow>
        add_incoming e d lt lbl a w = (Inl ValueError, w))
   \<and> (acyclic (set (provenance_edges e w)) \<and> self < next_ref w \<longrightarrow>
        acyclic (set (provenance_edges e (snd (add_incoming e src lt' lbl' self w)))))"
  using cycle_rejected [of lt e a b w c d lbl] add_incoming_acyclic [of e w self src lt' lbl']
  by blast

lemma chain_world_edges: "stored_edges test_env chain_world = [(0, 1), (1, 2), (2, 3)]"
  by code_simp

lemma four_stored_acyclic: "acyclic (set (provenance_edges test_env four_stored))"
  by code_simp

theorem provenance_graph_stays_acyclic_witness:
  "CREATE \<in> set (provenance_types test_env)
   \<and> (0, 1) \<in> set (stored_edges test_env chain_world)
   \<and> (1, 2) \<in> set (stored_edges test_env chain_world)
   \<and> (2, 3) \<in> set (stored_edges test_env chain_world)
   \<and> add_incoming test_env 3 CREATE ''l'' 0 chain_world = (Inl ValueError, chain_world)
   \<and> acyclic (set (provenance_edges test_env four_stored)) \<and> 1 < next_ref four_stored
   \<and> acyclic (set (provenance_edges test_env (snd (add_incoming test_env 0 CREATE ''l'' 1 four_stored))))"
proof -
  have p: "CREATE \<in> set (provenance_types test_env)" by (simp add: test_env_def)
  have e1: "(0, 1) \<in> set (stored_edges test_env chain_world)"
    and e2: "(1, 2) \<in> set (stored_edges test_env chain_world)"
    and e3: "(2, 3) \<in> set (stored_edges test_env chain_world)"
    by (simp_all add: chain_world_edges)
  have n: "1 < next_ref four_stored" by (simp add: four_stored_def)
  from provenance_graph_stays_acyclic [of CREATE test_env 0 1 chain_world 2 3 "''l''" 1 0 CREATE "''l''"]
    p e1 e2 e3
  have 1: "add_incoming test_env 3 CREATE ''l'' 0 chain_world = (Inl ValueError, chain_world)"
    by blast
  from provenance_graph_stays_acyclic [of CREATE test_env 0 1 four_stored 2 3 "''l''" 1 0 CREATE "''l''"]
    four_stored_acyclic n
  have 2: "acyclic (set (provenance_edges test_env (snd (add_incoming test_env 0 CREATE ''l'' 1 four_stored))))"
    by blast
  from p e1 e2 e3 1 2 n four_stored_acyclic show ?thesis by blast
qed

section \<open>Links: duplicates\<close>
















section \<open>Storing: frame facts\<close>

lemma same_flags_refl: "same_flags w w" by (simp add: same_flags_def)

lemma same_flags_trans: "same_flags w w1 \<Longrightarrow> same_flags w1 w2 \<Longrightarrow> same_flags w w2"
  by (simp add: same_flags_def)

lemma same_flags_stays: "fresh_unstored w \<Longrightarrow> same_flags w w' \<Longrightarrow> stays_stored w w'"
  by (simp add: same_flags_def stays_stored_def fresh_unstored_def is_stored_def)

lemma stays_stored_trans: "stays_stored w w1 \<Longrightarrow> stays_stored w1 w2 \<Longrightarrow> stays_stored w w2"
  by (simp add: stays_stored_def)

lemma stays_stored_refl: "fresh_unstored w \<Longrightarrow> stays_stored w w"
  by (simp add: stays_stored_def)

lemma set_attr_flags: "set_attr e key v clean chk self w = (r, w') \<Longrightarrow> same_flags w w'"
  by (auto simp: set_attr_def set_db_attr_def same_flags_def put_node_def Let_def
      split: if_splits sum.splits prod.splits)


lemma copy_attrs_flags: "copy_attrs e kvs self w = (r, w') \<Longrightarrow> same_flags w w'"
proof (induction kvs arbitrary: w r w')
  case Nil
  then show ?case by (simp add: same_flags_refl)
next
  case (Cons kv kvs)
  obtain key val where kv: "kv = (key, val)" by (cases kv)
  show ?case
  proof (cases "key \<noteq> sealed_key e")
    case True
    obtain r1 w1 where s: "set_attr e key (Imm val) True True self w = (r1, w1)"
      by (cases "set_attr e key (Imm val) True True self w")
    from set_attr_flags [OF s] have f1: "same_flags w w1" .
    show ?thesis
    proof (cases r1)
      case (Inl err)
      with Cons.prems kv True s f1 show ?thesis by simp
    next
      case (Inr u)
      with Cons.prems kv True s have "copy_attrs e kvs self w1 = (r, w')" by simp
      from Cons.IH [OF this] f1 show ?thesis by (rule same_flags_trans [rotated])
    qed
  next
    case False
    with Cons.prems kv have "copy_attrs e kvs self w = (r, w')" by simp
    from Cons.IH [OF this] show ?thesis .
  qed
qed


lemma set_extra_flags: "set_extra e key j ex self w = (r, w') \<Longrightarrow> same_flags w w'"
  by (auto simp: set_extra_def set_db_extra_def same_flags_def put_node_def Let_def
      split: if_splits sum.splits)

lemma add_incoming_flags:
  "add_incoming e src lt lbl self w = (r, w') \<Longrightarrow>
     next_ref w' = next_ref w \<and> db_nodes w' = db_nodes w
   \<and> (\<forall>x. to_be_stored (objs w' x) = to_be_stored (objs w x))
   \<and> (\<forall>x. storable (objs w' x) = storable (objs w x))"
  by (auto simp: add_incoming_def add_cachelink_from_def add_dblink_from_def validate_outgoing_def
      put_node_def Let_def split: if_splits sum.splits)

lemma flush_links_objs:
  "flush_links ts self w = (r, w') \<Longrightarrow>
     objs w' = objs w \<and> next_ref w' = next_ref w \<and> db_nodes w' = db_nodes w \<and> heap w' = heap w"
proof (induction ts arbitrary: w r w')
  case Nil
  then show ?case by simp
next
  case (Cons t ts)
  obtain s lt l where t: "t = (s, lt, l)" by (cases t)
  show ?case
  proof (cases "is_stored (objs w s)")
    case True
    obtain r1 w1 where a: "add_dblink_from s lt l self w = (r1, w1)"
      by (cases "add_dblink_from s lt l self w")
    then have o1: "objs w1 = objs w \<and> next_ref w1 = next_ref w \<and> db_nodes w1 = db_nodes w \<and> heap w1 = heap w"
      by (auto simp: add_dblink_from_def split: if_splits)
    show ?thesis
    proof (cases r1)
      case (Inl err)
      with Cons.prems t True a o1 show ?thesis by simp
    next
      case (Inr u)
      with Cons.prems t True a have "flush_links ts self w1 = (r, w')" by simp
      from Cons.IH [OF this] o1 show ?thesis by simp
    qed
  next
    case False
    obtain r1 w1 where f: "flush_links ts self w = (r1, w1)" by (cases "flush_links ts self w")
    from Cons.IH [OF f] Cons.prems t False f show ?thesis by (auto split: sum.splits)
  qed
qed

lemma db_store_effect:
  assumes "db_store e wt self w = (r, w')"
  shows "(\<exists>err. r = Inl err \<and> w' = w)
       \<or> (r = Inr () \<and> next_ref w' = next_ref w \<and> db_nodes w' = db_nodes w @ [self]
          \<and> \<not> to_be_stored (objs w' self)
          \<and> storable (objs w' self) = storable (objs w self)
          \<and> (\<forall>x. x \<noteq> self \<longrightarrow> objs w' x = objs w x))"
proof (cases "backend_failure e self w")
  case (Some err)
  with assms show ?thesis by (auto simp: db_store_def)
next
  case None
  let ?h = "(case get_hash e True self w of Inr (Some x) \<Rightarrow> JStr x | _ \<Rightarrow> JNone)"
  let ?n' = "(objs w self)\<lparr>to_be_stored := False, attrs_cache := [],
                      db_attrs := get_attrs self w,
                      db_extras := AList.update ''_aiida_hash'' ?h (db_extras (objs w self))\<rparr>"
  let ?w1 = "put_node self ?n' (w\<lparr>db_nodes := db_nodes w @ [self]\<rparr>)"
  obtain rf wf where f: "flush_links (incoming_cache (objs ?w1 self)) self ?w1 = (rf, wf)"
    by (cases "flush_links (incoming_cache (objs ?w1 self)) self ?w1")
  from flush_links_objs [OF f]
  have o: "objs wf = objs ?w1" "next_ref wf = next_ref ?w1" "db_nodes wf = db_nodes ?w1" by auto
  show ?thesis
  proof (cases rf)
    case (Inl err)
    with assms None f show ?thesis
      by (auto simp: db_store_def store_cached_input_links_def Let_def)
  next
    case (Inr rest)
    with assms None f
    have "r = Inr ()" and "w' = put_node self ((objs wf self)\<lparr>incoming_cache := rest\<rparr>) wf"
      by (auto simp: db_store_def store_cached_input_links_def Let_def)
    with o show ?thesis by (simp add: put_node_def)
  qed
qed

lemma db_store_stays:
  assumes fr: "fresh_unstored w" and al: "self < next_ref w" and run: "db_store e wt self w = (r, w')"
  shows "stays_stored w w' \<and> (r = Inr () \<longrightarrow> is_stored (objs w' self))"
  using db_store_effect [OF run] fr al
  by (auto simp: stays_stored_def fresh_unstored_def is_stored_def)

lemma autogroup_step_effect:
  "autogroup_step e self w = (r, w') \<Longrightarrow>
     objs w' = objs w \<and> next_ref w' = next_ref w \<and> db_nodes w' = db_nodes w \<and> db_links w' = db_links w
   \<and> (\<forall>x. r = Inr x \<longrightarrow> x = self)"
  by (auto simp: autogroup_step_def split: option.splits autogroup.splits if_splits)

lemma stays_stored_objs:
  "stays_stored w w1 \<Longrightarrow> objs w' = objs w1 \<Longrightarrow> next_ref w' = next_ref w1 \<Longrightarrow> stays_stored w w'"
  by (simp add: stays_stored_def fresh_unstored_def)

lemma store_with_spec:
  assumes h: "handler_spec h"
  shows "store_spec (store_with h e wt uc)"
  unfolding store_spec_def
proof (intro allI impI)
  fix self w res w'
  assume fr: "fresh_unstored w" and al: "self < next_ref w"
    and run: "store_with h e wt uc self w = (res, w')"
  let ?n = "objs w self"
  show "stays_stored w w' \<and> (\<forall>x. res = Inr x \<longrightarrow> x = self \<and> is_stored (objs w' self))"
  proof (cases "storable ?n \<and> validate_hook e self w")
    case False
    then have "(res, w') = (Inl StoringNotAllowed, w) \<or> (res, w') = (Inl ValidationError, w)"
      using run by (cases "storable ?n") (simp_all add: store_with_def Let_def)
    with fr show ?thesis by (auto simp: stays_stored_refl)
  next
    case ok: True
    show ?thesis
    proof (cases "to_be_stored ?n")
      case False
      with run ok have "(res, w') = (Inr self, w)" by (simp add: store_with_def Let_def)
      with fr False show ?thesis by (auto simp: stays_stored_refl is_stored_def)
    next
      case True
      show ?thesis
      proof (cases "check_are_parents_stored self w")
        case (Inl err)
        with run ok True have "(res, w') = (Inl err, w)" by (simp add: store_with_def Let_def)
        with fr show ?thesis by (auto simp: stays_stored_refl)
      next
        case (Inr u)
        define same where "same = (if (case uc of None \<Rightarrow> get_use_cache e (node_type ?n) | Some b \<Rightarrow> b)
                                   then get_same_node e self w else None)"
        obtain r1 w1 where body:
          "(case same of Some c \<Rightarrow> h c self w | None \<Rightarrow> db_store e wt self w) = (r1, w1)"
          by (cases "(case same of Some c \<Rightarrow> h c self w | None \<Rightarrow> db_store e wt self w)")
        have s1: "stays_stored w w1 \<and> (r1 = Inr () \<longrightarrow> is_stored (objs w1 self))"
        proof (cases same)
          case None
          with body db_store_stays [OF fr al] show ?thesis by simp
        next
          case (Some c)
          with body h fr al show ?thesis unfolding handler_spec_def by simp
        qed
        have step: "(res, w') = (case r1 of Inl err \<Rightarrow> (Inl err, w1) | Inr u \<Rightarrow> autogroup_step e self w1)"
          using run ok True Inr body by (simp add: store_with_def same_def Let_def)
        show ?thesis
        proof (cases r1)
          case (Inl err)
          with step s1 show ?thesis by simp
        next
          case (Inr u1)
          with step have a: "autogroup_step e self w1 = (res, w')" by simp
          from autogroup_step_effect [OF a] s1 Inr show ?thesis
            by (auto intro: stays_stored_objs)
        qed
      qed
    qed
  qed
qed

lemma dummy_handler_spec: "handler_spec (\<lambda>c s w'. (Inl InternalError, w'))"
  by (simp add: handler_spec_def stays_stored_refl)

lemma store_nocache_spec: "store_spec (store_nocache e wt)"
proof -
  have "store_nocache e wt = store_with (\<lambda>c s w'. (Inl InternalError, w')) e wt (Some False)"
    by (intro ext) (simp add: store_nocache_def)
  with store_with_spec [OF dummy_handler_spec] show ?thesis by simp
qed

lemma put_node_flags:
  "to_be_stored n = to_be_stored (objs w r) \<Longrightarrow> storable n = storable (objs w r) \<Longrightarrow>
     same_flags w (put_node r n w)"
  by (simp add: same_flags_def put_node_def)

lemma same_flags_fresh: "same_flags w w' \<Longrightarrow> fresh_unstored w \<Longrightarrow> fresh_unstored w'"
  by (simp add: same_flags_def fresh_unstored_def)

lemma same_then_stays:
  "same_flags w w1 \<Longrightarrow> stays_stored w1 w' \<Longrightarrow> stays_stored w w'"
  by (simp add: same_flags_def stays_stored_def is_stored_def)

lemma stays_then_same:
  "stays_stored w w1 \<Longrightarrow> same_flags w1 w' \<Longrightarrow> stays_stored w w'"
  by (simp add: same_flags_def stays_stored_def is_stored_def fresh_unstored_def)

lemma store_from_cache_handler:
  assumes fr: "fresh_unstored w" and al: "self < next_ref w"
    and run: "store_from_cache e c wt self w = (res, w')"
  shows "stays_stored w w' \<and> (res = Inr () \<longrightarrow> is_stored (objs w' self))"
proof (cases "node_type (objs w self) \<noteq> node_type (objs w c)")
  case True
  with run fr show ?thesis by (auto simp: store_from_cache_def stays_stored_refl)
next
  case False
  define w1 where "w1 = put_node self ((objs w self)\<lparr>label := label (objs w c), description := description (objs w c)\<rparr>) w"
  have f1: "same_flags w w1" unfolding w1_def by (rule put_node_flags) simp_all
  obtain r2 w2 where c2: "copy_attrs e (iterattrs c w1) self w1 = (r2, w2)"
    by (cases "copy_attrs e (iterattrs c w1) self w1")
  have f2: "same_flags w w2" using f1 copy_attrs_flags [OF c2] by (rule same_flags_trans)
  show ?thesis
  proof (cases r2)
    case (Inl err)
    with run False c2 have "(res, w') = (Inl err, w2)"
      by (simp add: store_from_cache_def w1_def Let_def)
    with f2 fr show ?thesis by (auto simp: same_flags_stays)
  next
    case (Inr u)
    define w3 where "w3 = put_node self ((objs w2 self)\<lparr>folder := folder (objs w2 c)\<rparr>) w2"
    have "same_flags w2 w3" unfolding w3_def by (rule put_node_flags) simp_all
    with f2 have f3: "same_flags w w3" by (rule same_flags_trans)
    have fr3: "fresh_unstored w3" using f3 fr by (rule same_flags_fresh)
    have al3: "self < next_ref w3" using f3 al by (simp add: same_flags_def)
    show ?thesis
    proof (cases "get_outgoing [RETURN] c w3 \<noteq> []")
      case True
      with run False c2 Inr have "(res, w') = (Inl ValueError, w3)"
        by (simp add: store_from_cache_def w1_def w3_def Let_def)
      with f3 fr show ?thesis by (auto simp: same_flags_stays)
    next
      case noret: False
      obtain r4 w4 where s4: "store_nocache e wt self w3 = (r4, w4)"
        by (cases "store_nocache e wt self w3")
      from store_nocache_spec [of e wt] fr3 al3 s4
      have st4: "stays_stored w3 w4" and ok4: "\<forall>x. r4 = Inr x \<longrightarrow> is_stored (objs w4 self)"
        unfolding store_spec_def by blast+
      have st: "stays_stored w w4" using f3 st4 by (rule same_then_stays)
      show ?thesis
      proof (cases r4)
        case (Inl err)
        with run False c2 Inr noret s4 have "(res, w') = (Inl err, w4)"
          by (simp add: store_from_cache_def w1_def w3_def Let_def)
        with st show ?thesis by auto
      next
        case r4: (Inr x)
        with run False c2 Inr noret s4
        have se: "set_extra e ''_aiida_cached_from'' (JInt (int (uuid (objs w4 c)))) False self w4 = (res, w')"
          by (simp add: store_from_cache_def w1_def w3_def Let_def)
        from set_extra_flags [OF se] have f5: "same_flags w4 w'" .
        from st f5 have "stays_stored w w'" by (rule stays_then_same)
        moreover have "is_stored (objs w' self)"
          using ok4 r4 f5 by (simp add: same_flags_def is_stored_def)
        ultimately show ?thesis by simp
      qed
    qed
  qed
qed

lemma load_attrs_any: "\<exists>al h'. load_attrs kvs h = (al, h')"
  by (cases "load_attrs kvs h") simp

lemma clone_effect:
  assumes fr: "fresh_unstored w" and run: "clone r w = (new, w1)"
  shows "new = next_ref w \<and> next_ref w1 = Suc (next_ref w) \<and> stays_stored w w1
       \<and> db_nodes w1 = db_nodes w \<and> db_links w1 = db_links w"
proof -
  obtain al h' where la: "load_attrs (iterattrs r w) (heap w) = (al, h')"
    using load_attrs_any by blast
  from run la have n: "new = next_ref w"
    and w1: "w1 = put_node (next_ref w)
                 ((objs w r)\<lparr>to_be_stored := True, attrs_cache := al, incoming_cache := [],
                     uuid := next_ref w, db_attrs := [], db_extras := []\<rparr>)
                 (w\<lparr>heap := h', next_ref := Suc (next_ref w)\<rparr>)"
    by (auto simp: clone_def Let_def)
  have "stays_stored w w1"
    using fr unfolding w1 stays_stored_def fresh_unstored_def is_stored_def put_node_def
    by auto
  with n w1 show ?thesis by (simp add: put_node_def)
qed

lemma outputs_loop_stays:
  assumes st: "store_spec st"
  shows "fresh_unstored w \<Longrightarrow> outputs_loop st e es self w = (res, w') \<Longrightarrow> stays_stored w w'"
proof (induction es arbitrary: w)
  case Nil
  then show ?case by (simp add: stays_stored_refl)
next
  case (Cons en es)
  obtain c lt lbl where en: "en = (c, lt, lbl)" by (cases en)
  obtain new w1 where cl: "clone c w = (new, w1)" by (cases "clone c w")
  from clone_effect [OF Cons.prems(1) cl]
  have n: "new = next_ref w" and nx: "next_ref w1 = Suc (next_ref w)" and s1: "stays_stored w w1" by auto
  obtain r2 w2 where ai: "add_incoming e self CREATE lbl new w1 = (r2, w2)"
    by (cases "add_incoming e self CREATE lbl new w1")
  from add_incoming_flags [OF ai]
  have f2: "next_ref w2 = next_ref w1" "\<forall>x. to_be_stored (objs w2 x) = to_be_stored (objs w1 x)"
    "\<forall>x. storable (objs w2 x) = storable (objs w1 x)" by auto
  have s2: "stays_stored w w2"
    using s1 f2 by (simp add: stays_stored_def fresh_unstored_def is_stored_def)
  then have fr2: "fresh_unstored w2" by (simp add: stays_stored_def)
  have al2: "new < next_ref w2" using n nx f2 by simp
  show ?case
  proof (cases r2)
    case (Inl err)
    with Cons.prems(2) en cl ai s2 show ?thesis by simp
  next
    case (Inr u)
    obtain r3 w3 where s: "st new w2 = (r3, w3)" by (cases "st new w2")
    from st fr2 al2 s have s3: "stays_stored w2 w3" unfolding store_spec_def by blast
    from s2 s3 have s03: "stays_stored w w3" by (rule stays_stored_trans)
    show ?thesis
    proof (cases r3)
      case (Inl err)
      with Cons.prems(2) en cl ai Inr s s03 show ?thesis by simp
    next
      case r3: (Inr x)
      with Cons.prems(2) en cl ai Inr s have "outputs_loop st e es self w3 = (res, w')" by simp
      from Cons.IH [OF _ this] s03 show ?thesis
        by (auto simp: stays_stored_def intro: stays_stored_trans)
    qed
  qed
qed

lemma from_cache_path_handler:
  assumes st: "store_spec st"
  shows "handler_spec (from_cache_path st e wt)"
  unfolding handler_spec_def
proof (intro allI impI)
  fix c self w res w'
  assume fr: "fresh_unstored w" and al: "self < next_ref w"
    and run: "from_cache_path st e wt c self w = (res, w')"
  obtain r1 w1 where s1: "store_from_cache e c wt self w = (r1, w1)"
    by (cases "store_from_cache e c wt self w")
  from store_from_cache_handler [OF fr al s1]
  have st1: "stays_stored w w1" and ok1: "r1 = Inr () \<longrightarrow> is_stored (objs w1 self)" by auto
  show "stays_stored w w' \<and> (res = Inr () \<longrightarrow> is_stored (objs w' self))"
  proof (cases r1)
    case (Inl err)
    with run s1 st1 show ?thesis by (auto simp: from_cache_path_def)
  next
    case (Inr u)
    with run s1 have o: "outputs_loop st e (get_outgoing [CREATE] c w1) self w1 = (res, w')"
      by (simp add: from_cache_path_def add_outputs_from_cache_def)
    have "fresh_unstored w1" using st1 by (simp add: stays_stored_def)
    from outputs_loop_stays [OF st this o] have s2: "stays_stored w1 w'" .
    from st1 s2 have "stays_stored w w'" by (rule stays_stored_trans)
    moreover have "is_stored (objs w' self)" using ok1 Inr s2 by (simp add: stays_stored_def)
    ultimately show ?thesis by simp
  qed
qed

lemma limit_store_spec: "store_spec (\<lambda>r w'. (Inl RecursionError, w'))"
  by (simp add: store_spec_def stays_stored_refl)

lemma store_store_spec: "store_spec (store k e wt uc)"
proof (induction k arbitrary: wt uc)
  case 0
  have "store 0 e wt uc = store_with (from_cache_path (\<lambda>r w'. (Inl RecursionError, w')) e wt) e wt uc"
    by (intro ext) simp
  with store_with_spec [OF from_cache_path_handler [OF limit_store_spec]] show ?case by simp
next
  case (Suc k)
  have "store (Suc k) e wt uc = store_with (from_cache_path (store k e True None) e wt) e wt uc"
    by (intro ext) simp
  with store_with_spec [OF from_cache_path_handler [OF Suc]] show ?case by simp
qed

lemma fresh_empty: "fresh_unstored empty_world"
  by (simp add: fresh_unstored_def empty_world_def init_node_def)

lemma create_node_fresh:
  "fresh_unstored w \<Longrightarrow> fresh_unstored (snd (create_node cls st w))
     \<and> next_ref (snd (create_node cls st w)) = Suc (next_ref w)"
  by (simp add: fresh_unstored_def create_node_def put_node_def init_node_def)

lemma add_incoming_fresh:
  "fresh_unstored w \<Longrightarrow> fresh_unstored (snd (add_incoming e src lt lbl self w))
     \<and> next_ref (snd (add_incoming e src lt lbl self w)) = next_ref w"
  using add_incoming_flags [of e src lt lbl self w "fst (add_incoming e src lt lbl self w)"
      "snd (add_incoming e src lt lbl self w)"]
  by (simp add: fresh_unstored_def)

lemma store_fresh:
  "fresh_unstored w \<Longrightarrow> self < next_ref w \<Longrightarrow>
     fresh_unstored (snd (store k e wt uc self w)) \<and> next_ref w \<le> next_ref (snd (store k e wt uc self w))"
  using store_store_spec [of k e wt uc]
  unfolding store_spec_def stays_stored_def
  by (metis prod.collapse)

section \<open>Storing twice\<close>

lemma store_on_stored:
  assumes "is_stored (objs w self)"
  shows "store k e wt uc self w =
           (if \<not> storable (objs w self) then (Inl StoringNotAllowed, w)
            else if \<not> validate_hook e self w then (Inl ValidationError, w)
            else (Inr self, w))"
  using assms by (cases k) (simp_all add: store_with_def is_stored_def)

lemma store_all_on_stored:
  "is_stored (objs w self) \<Longrightarrow> store_all k e wt uc self w = (Inl ModificationNotAllowed, w)"
  by (simp add: store_all_def)

lemma store_success_storable:
  assumes "store k e wt uc self w = (Inr r, w')"
  shows "storable (objs w self)"
proof (rule ccontr)
  assume "\<not> storable (objs w self)"
  then have "store k e wt uc self w = (Inl StoringNotAllowed, w)"
    by (cases k) (simp_all add: store_with_def)
  with assms show False by simp
qed

text \<open>
  C1, as amended. After \<open>store()\<close> has returned successfully on an allocated node of a
  well-formed world, the node is stored, and a second \<open>store()\<close>, whatever its
  arguments, does not fail with \<open>ModificationNotAllowed\<close>: it runs the storable and
  validation checks and returns the node, leaving the world, and so the durable records,
  exactly as it was. \<open>store_all()\<close> on the stored node fails with
  \<open>ModificationNotAllowed\<close>, and also changes nothing.
\<close>

theorem second_store_is_noop:
  assumes fr: "fresh_unstored w0" and al: "self < next_ref w0"
    and first: "store k0 e wt0 uc0 self w0 = (Inr r, w)"
  shows "r = self \<and> is_stored (objs w self)
       \<and> (store k e wt uc self w = (Inr self, w) \<or> store k e wt uc self w = (Inl ValidationError, w))
       \<and> (validate_hook e self w \<longrightarrow> store k e wt uc self w = (Inr self, w))
       \<and> store_all k e wt uc self w = (Inl ModificationNotAllowed, w)"
proof -
  from store_store_spec [of k0 e wt0 uc0] fr al first
  have ss: "stays_stored w0 w" and rs: "r = self" and st: "is_stored (objs w self)"
    unfolding store_spec_def by blast+
  have "storable (objs w0 self)" using first by (rule store_success_storable)
  with ss al have sb: "storable (objs w self)" by (simp add: stays_stored_def)
  from store_on_stored [OF st, of k e wt uc] sb store_all_on_stored [OF st, of k e wt uc] rs st
  show ?thesis by auto
qed

text \<open>
  The claim as stated fails: on a new storable node the second \<open>store()\<close> returns the
  node as the first did; the node table holds the one record.
\<close>

theorem second_store_returns_normally:
  "fst (store 0 test_env True None 0 one_new) = Inr 0
   \<and> db_nodes once_stored = [0]
   \<and> fst (store 0 test_env True None 0 once_stored) = Inr 0
   \<and> fst (store 0 test_env True None 0 once_stored) \<noteq> Inl ModificationNotAllowed
   \<and> db_nodes (snd (store 0 test_env True None 0 once_stored)) = [0]"
proof -
  have 1: "fst (store 0 test_env True None 0 one_new) = Inr 0" by code_simp
  have 2: "db_nodes once_stored = [0]" by code_simp
  have 3: "fst (store 0 test_env True None 0 once_stored) = Inr 0" by code_simp
  have 4: "db_nodes (snd (store 0 test_env True None 0 once_stored)) = [0]" by code_simp
  from 1 2 3 4 show ?thesis by simp
qed

lemma one_new_fresh: "fresh_unstored one_new \<and> next_ref one_new = 1"
  using create_node_fresh [OF fresh_empty, of "''Data''" True]
  by (simp add: one_new_def empty_world_def)

lemma first_store_one_new: "store 0 test_env True None 0 one_new = (Inr 0, once_stored)"
proof -
  have "fst (store 0 test_env True None 0 one_new) = Inr 0" by code_simp
  then show ?thesis unfolding once_stored_def by (metis prod.collapse)
qed

theorem second_store_is_noop_witness:
  "fresh_unstored one_new \<and> 0 < next_ref one_new
   \<and> store 0 test_env True None 0 one_new = (Inr 0, once_stored)
   \<and> is_stored (objs once_stored 0)
   \<and> store 0 test_env True None 0 once_stored = (Inr 0, once_stored)
   \<and> store_all 0 test_env True None 0 once_stored = (Inl ModificationNotAllowed, once_stored)"
proof -
  have f: "fresh_unstored one_new" and n: "0 < next_ref one_new" using one_new_fresh by simp_all
  have v: "validate_hook test_env 0 once_stored" by (simp add: test_env_def)
  from second_store_is_noop [OF f n first_store_one_new, where k = 0 and wt = True and uc = None] v f n
    first_store_one_new
  show ?thesis by blast
qed

section \<open>Storing from the cache\<close>









section \<open>Storing with unstored parents\<close>

lemma input_loop_stays:
  assumes st: "store_spec st"
  shows "fresh_unstored w \<Longrightarrow> \<forall>(s, lt, lbl) \<in> set ts. s < next_ref w \<Longrightarrow>
         input_loop st ts w = (res, w1) \<Longrightarrow>
         stays_stored w w1 \<and> (res = Inr () \<longrightarrow> (\<forall>(s, lt, lbl) \<in> set ts. is_stored (objs w1 s)))"
proof (induction ts arbitrary: w)
  case Nil
  then show ?case by (simp add: stays_stored_refl)
next
  case (Cons t ts)
  obtain src lt lbl where t: "t = (src, lt, lbl)" by (cases t)
  have al: "src < next_ref w" and rest: "\<forall>(s, lt, lbl) \<in> set ts. s < next_ref w"
    using Cons.prems(2) t by auto
  show ?case
  proof (cases "is_stored (objs w src)")
    case True
    with Cons.prems(3) t have l: "input_loop st ts w = (res, w1)" by simp
    from Cons.IH [OF Cons.prems(1) rest l]
    have s: "stays_stored w w1"
      and a: "res = Inr () \<longrightarrow> (\<forall>(s, lt, lbl) \<in> set ts. is_stored (objs w1 s))" by auto
    from s True have "is_stored (objs w1 src)" by (simp add: stays_stored_def)
    with s a t show ?thesis by auto
  next
    case False
    obtain r2 w2 where s2: "st src w = (r2, w2)" by (cases "st src w")
    from st Cons.prems(1) al s2
    have ss2: "stays_stored w w2" and ok2: "\<forall>x. r2 = Inr x \<longrightarrow> is_stored (objs w2 src)"
      unfolding store_spec_def by blast+
    show ?thesis
    proof (cases r2)
      case (Inl err)
      with Cons.prems(3) t False s2 ss2 show ?thesis by auto
    next
      case (Inr x)
      with Cons.prems(3) t False s2 have l: "input_loop st ts w2 = (res, w1)" by simp
      have fr2: "fresh_unstored w2" and nx: "next_ref w \<le> next_ref w2"
        using ss2 by (simp_all add: stays_stored_def)
      have rest2: "\<forall>(s, lt, lbl) \<in> set ts. s < next_ref w2" using rest nx by auto
      from Cons.IH [OF fr2 rest2 l]
      have s: "stays_stored w2 w1"
        and a: "res = Inr () \<longrightarrow> (\<forall>(s, lt, lbl) \<in> set ts. is_stored (objs w1 s))" by auto
      from ok2 Inr s have "is_stored (objs w1 src)" by (simp add: stays_stored_def)
      moreover from ss2 s have "stays_stored w w1" by (rule stays_stored_trans)
      ultimately show ?thesis using a t by auto
    qed
  qed
qed

lemma store_unstored_parent:
  assumes unst: "to_be_stored (objs w self)"
    and src: "(src, lt, lbl) \<in> set (incoming_cache (objs w self))" and us: "to_be_stored (objs w src)"
  shows "store k e wt uc self w =
           (if \<not> storable (objs w self) then (Inl StoringNotAllowed, w)
            else if \<not> validate_hook e self w then (Inl ValidationError, w)
            else (Inl ModificationNotAllowed, w))"
proof -
  have "check_are_parents_stored self w = Inl ModificationNotAllowed"
    using src us by (auto simp: check_are_parents_stored_def is_stored_def)
  with unst show ?thesis by (cases k) (simp_all add: store_with_def)
qed

lemma store_all_unstored_grandparent:
  assumes unst: "to_be_stored (objs w self)"
    and src: "(src, lt, lbl) \<in> set (incoming_cache (objs w self))"
    and gsrc: "(gsrc, lt', lbl') \<in> set (incoming_cache (objs w src))" and us: "to_be_stored (objs w gsrc)"
  shows "store_all k e wt uc self w = (Inl ModificationNotAllowed, w)"
proof -
  have "check_are_parents_stored src w = Inl ModificationNotAllowed"
    using gsrc us by (auto simp: check_are_parents_stored_def is_stored_def)
  with unst src show ?thesis by (auto simp: store_all_def is_stored_def)
qed

lemma store_all_success:
  assumes fr: "fresh_unstored w" and al: "self < next_ref w"
    and srcs: "\<forall>(s, lt, lbl) \<in> set (incoming_cache (objs w self)). s < next_ref w"
    and run: "store_all k e wt uc self w = (Inr r, w')"
  shows "r = self \<and> is_stored (objs w' self)
       \<and> (\<forall>(s, lt, lbl) \<in> set (incoming_cache (objs w self)). is_stored (objs w' s))
       \<and> (\<exists>w1. store_input_nodes (store k e False None) self w = (Inr (), w1)
              \<and> (\<forall>(s, lt, lbl) \<in> set (incoming_cache (objs w self)). is_stored (objs w1 s))
              \<and> store k e False uc self w1 = (Inr self, w'))"
proof -
  from run have unst: "\<not> is_stored (objs w self)"
    and dsa: "db_store_all k e wt uc self w = (Inr r, w')"
    by (auto simp: store_all_def split: if_splits)
  obtain r1 w1 where il: "input_loop (store k e False None) (incoming_cache (objs w self)) w = (r1, w1)"
    by (cases "input_loop (store k e False None) (incoming_cache (objs w self)) w")
  with unst have sin: "store_input_nodes (store k e False None) self w = (r1, w1)"
    by (simp add: store_input_nodes_def)
  from dsa sin have r1: "r1 = Inr ()" and s2: "store k e False uc self w1 = (Inr r, w')"
    by (auto simp: db_store_all_def split: sum.splits)
  from input_loop_stays [OF store_store_spec fr srcs il] r1
  have ss1: "stays_stored w w1"
    and a1: "\<forall>(s, lt, lbl) \<in> set (incoming_cache (objs w self)). is_stored (objs w1 s)" by auto
  have fr1: "fresh_unstored w1" and al1: "self < next_ref w1"
    using ss1 al by (auto simp: stays_stored_def)
  from store_store_spec [of k e False uc] fr1 al1 s2
  have ss2: "stays_stored w1 w'" and rs: "r = self" and st: "is_stored (objs w' self)"
    unfolding store_spec_def by blast+
  have a2: "\<forall>(s, lt, lbl) \<in> set (incoming_cache (objs w self)). is_stored (objs w' s)"
    using a1 ss2 by (auto simp: stays_stored_def)
  from rs st a2 sin r1 a1 s2 show ?thesis by auto
qed

text \<open>
  C3. For an unstored node with an unstored source in its cache of incoming links,
  \<open>store()\<close> never succeeds and changes nothing; the checks run in the order storable,
  valid, parents stored, so on a storable node that passes validation the error is
  \<open>ModificationNotAllowed\<close>. \<open>store_all()\<close> fails with \<open>ModificationNotAllowed\<close>
  and changes nothing if a direct source has an unstored source in its own cache. When
  \<open>store_all()\<close> succeeds (on an allocated node of a well-formed world) it returns the
  node, first \<open>_store_input_nodes\<close> has stored every direct source, then \<open>store\<close> has
  stored the node itself, and they are all stored at the end.
\<close>

theorem parents_must_be_stored:
  assumes unst: "to_be_stored (objs w self)"
  shows "((src, lt, lbl) \<in> set (incoming_cache (objs w self)) \<and> to_be_stored (objs w src) \<longrightarrow>
            (\<exists>err. store k e wt uc self w = (Inl err, w))
          \<and> (storable (objs w self) \<and> validate_hook e self w \<longrightarrow>
               store k e wt uc self w = (Inl ModificationNotAllowed, w)))
       \<and> ((src, lt, lbl) \<in> set (incoming_cache (objs w self))
          \<and> (gsrc, lt', lbl') \<in> set (incoming_cache (objs w src))
          \<and> to_be_stored (objs w gsrc) \<longrightarrow>
            store_all k e wt uc self w = (Inl ModificationNotAllowed, w))
       \<and> (fresh_unstored w \<and> self < next_ref w
          \<and> (\<forall>(s, lt, lbl) \<in> set (incoming_cache (objs w self)). s < next_ref w)
          \<and> store_all k e wt uc self w = (Inr r, w') \<longrightarrow>
            r = self \<and> is_stored (objs w' self)
          \<and> (\<forall>(s, lt, lbl) \<in> set (incoming_cache (objs w self)). is_stored (objs w' s))
          \<and> (\<exists>w1. store_input_nodes (store k e False None) self w = (Inr (), w1)
                \<and> (\<forall>(s, lt, lbl) \<in> set (incoming_cache (objs w self)). is_stored (objs w1 s))
                \<and> store k e False uc self w1 = (Inr self, w')))"
proof -
  have a: "(\<exists>err. store k e wt uc self w = (Inl err, w))
          \<and> (storable (objs w self) \<and> validate_hook e self w \<longrightarrow>
               store k e wt uc self w = (Inl ModificationNotAllowed, w))"
    if "(src, lt, lbl) \<in> set (incoming_cache (objs w self))" "to_be_stored (objs w src)"
    using store_unstored_parent [OF unst that, of k e wt uc] by auto
  from a store_all_unstored_grandparent [OF unst, of src lt lbl gsrc lt' lbl' k e wt uc]
    store_all_success [of w self k e wt uc r w']
  show ?thesis by blast
qed

lemma grandparents_fresh: "fresh_unstored grandparents \<and> next_ref grandparents = 3"
proof -
  let ?w1 = "snd (create_node ''Node'' True empty_world)"
  let ?w2 = "snd (create_node ''Node'' True ?w1)"
  let ?w3 = "snd (create_node ''Node'' True ?w2)"
  let ?w4 = "snd (add_incoming test_env 0 INPUT ''N1'' 1 ?w3)"
  have 1: "fresh_unstored ?w1 \<and> next_ref ?w1 = 1"
    using create_node_fresh [OF fresh_empty, of "''Node''" True] by (simp add: empty_world_def)
  then have 2: "fresh_unstored ?w2 \<and> next_ref ?w2 = 2"
    using create_node_fresh [of ?w1 "''Node''" True] by simp
  then have 3: "fresh_unstored ?w3 \<and> next_ref ?w3 = 3"
    using create_node_fresh [of ?w2 "''Node''" True] by simp
  then have 4: "fresh_unstored ?w4 \<and> next_ref ?w4 = 3"
    using add_incoming_fresh [of ?w3 test_env 0 INPUT "''N1''" 1] by simp
  then show ?thesis
    using add_incoming_fresh [of ?w4 test_env 1 INPUT "''N2''" 2] by (simp add: grandparents_def)
qed

lemma grandparent_stored_fresh: "fresh_unstored grandparent_stored \<and> 3 \<le> next_ref grandparent_stored"
  using store_fresh [of grandparents 0 0 test_env True None] grandparents_fresh
  by (simp add: grandparent_stored_def)

lemma grandparents_facts:
  "to_be_stored (objs grandparents 2)"
  "incoming_cache (objs grandparents 2) = [(1, INPUT, ''N2'')]"
  "incoming_cache (objs grandparents 1) = [(0, INPUT, ''N1'')]"
  "to_be_stored (objs grandparents 1)"
  "to_be_stored (objs grandparents 0)"
  "storable (objs grandparents 2)"
  by code_simp+

lemma grandparent_stored_facts:
  "to_be_stored (objs grandparent_stored 2)"
  "incoming_cache (objs grandparent_stored 2) = [(1, INPUT, ''N2'')]"
  "fst (store_all 0 test_env True None 2 grandparent_stored) = Inr 2"
  by code_simp+

theorem parents_must_be_stored_witness:
  "to_be_stored (objs grandparents 2)
   \<and> (1, INPUT, ''N2'') \<in> set (incoming_cache (objs grandparents 2))
   \<and> to_be_stored (objs grandparents 1)
   \<and> storable (objs grandparents 2) \<and> validate_hook test_env 2 grandparents
   \<and> store 0 test_env True None 2 grandparents = (Inl ModificationNotAllowed, grandparents)
   \<and> (0, INPUT, ''N1'') \<in> set (incoming_cache (objs grandparents 1))
   \<and> to_be_stored (objs grandparents 0)
   \<and> store_all 0 test_env True None 2 grandparents = (Inl ModificationNotAllowed, grandparents)
   \<and> to_be_stored (objs grandparent_stored 2)
   \<and> fresh_unstored grandparent_stored \<and> 2 < next_ref grandparent_stored
   \<and> fst (store_all 0 test_env True None 2 grandparent_stored) = Inr 2
   \<and> is_stored (objs (snd (store_all 0 test_env True None 2 grandparent_stored)) 2)
   \<and> is_stored (objs (snd (store_all 0 test_env True None 2 grandparent_stored)) 1)"
proof -
  let ?w = grandparents and ?v = grandparent_stored
  have v: "validate_hook test_env 2 ?w" by (simp add: test_env_def)
  have m1: "(1, INPUT, ''N2'') \<in> set (incoming_cache (objs ?w 2))"
    and m0: "(0, INPUT, ''N1'') \<in> set (incoming_cache (objs ?w 1))"
    by code_simp+
  from parents_must_be_stored [OF grandparents_facts(1), of 1 INPUT "''N2''" 0 test_env True None
      0 INPUT "''N1''"] m1 m0 grandparents_facts v
  have 1: "store 0 test_env True None 2 ?w = (Inl ModificationNotAllowed, ?w)"
    and 2: "store_all 0 test_env True None 2 ?w = (Inl ModificationNotAllowed, ?w)"
    by blast+
  have f: "fresh_unstored ?v" and n: "2 < next_ref ?v" using grandparent_stored_fresh by simp_all
  have s: "\<forall>(s, lt, lbl) \<in> set (incoming_cache (objs ?v 2)). s < next_ref ?v"
    using n by (simp add: grandparent_stored_facts)
  have run: "store_all 0 test_env True None 2 ?v
               = (Inr 2, snd (store_all 0 test_env True None 2 ?v))"
    using grandparent_stored_facts(3) by (metis prod.collapse)
  from parents_must_be_stored [OF grandparent_stored_facts(1), of 1 INPUT "''N2''" 0 test_env True None
      0 INPUT "''N1''" 2 "snd (store_all 0 test_env True None 2 ?v)"] f n s run
  have 3: "is_stored (objs (snd (store_all 0 test_env True None 2 ?v)) 2)"
    and 4: "\<forall>(s, lt, lbl) \<in> set (incoming_cache (objs ?v 2)).
              is_stored (objs (snd (store_all 0 test_env True None 2 ?v)) s)"
    by blast+
  from 4 have 5: "is_stored (objs (snd (store_all 0 test_env True None 2 ?v)) 1)"
    by (simp add: grandparent_stored_facts)
  from grandparents_facts grandparent_stored_facts(1,3) v m1 m0 1 2 f n 3 5
  show ?thesis by simp
qed

end
